theory Spec2Isabelle
  imports Main "HOL-Library.Char_ord" "HOL-Library.List_Lexorder"
begin

unbundle bit_operations_syntax

section \<open>Podd database support functions (Database.cxx)\<close>

text \<open>
  A shallow embedding of \<^verbatim>\<open>src/Database/Database.cxx\<close>.  Strings are
  \<^typ>\<open>string\<close>; a C string is the list of its bytes before the terminating NUL, so a
  pointer into a C string is an index and \<^verbatim>\<open>*p == 0\<close> reads \<open>p = length s\<close>.
  Status codes are the integers the C++ functions return.  Model scope:
  pointer arguments (\<^verbatim>\<open>file\<close>, \<^verbatim>\<open>key\<close>, \<^verbatim>\<open>req\<close>) are non-null, so the
  \<open>-255\<close> returns do not appear; the stream is a text in memory whose reads never
  fail and leave \<^verbatim>\<open>errno\<close> alone, so within a scan \<^verbatim>\<open>errno\<close> is what the calls of
  \<^verbatim>\<open>strptime\<close> and \<^verbatim>\<open>mktime\<close> in \<^verbatim>\<open>IsDBdate\<close> make of it; \<^verbatim>\<open>assert\<close> is compiled out
  (\<^verbatim>\<open>NDEBUG\<close>) unless stated; messages written to the error sink and the
  thread-local \<^verbatim>\<open>errtxt\<close>, \<^verbatim>\<open>loaddb_depth\<close>, \<^verbatim>\<open>loaddb_prefix\<close> that only feed
  those messages are left out.
\<close>

subsection \<open>Characters and C string helpers\<close>

definition NUL :: char where "NUL = CHR 0x00"
definition TAB :: char where "TAB = CHR 0x09"
definition NL :: char where "NL = CHR 0x0A"
definition SPC :: char where "SPC = CHR 0x20"
definition BSL :: char where "BSL = CHR 0x5C"

text \<open>\<^verbatim>\<open>isspace\<close> and \<^verbatim>\<open>isdigit\<close> of the C locale.\<close>

definition isspace :: "char \<Rightarrow> bool" where
  "isspace c = (c = CHR 0x20 \<or> c = CHR 0x09 \<or> c = CHR 0x0A \<or> c = CHR 0x0B \<or> c = CHR 0x0C \<or> c = CHR 0x0D)"

definition isdigit :: "char \<Rightarrow> bool" where
  "isdigit c = (c = CHR ''0'' \<or> c = CHR ''1'' \<or> c = CHR ''2'' \<or> c = CHR ''3'' \<or> c = CHR ''4''
     \<or> c = CHR ''5'' \<or> c = CHR ''6'' \<or> c = CHR ''7'' \<or> c = CHR ''8'' \<or> c = CHR ''9'')"

text \<open>\<^verbatim>\<open>strchr\<close> / \<^verbatim>\<open>string::find(char)\<close>: index of the first occurrence, \<open>None\<close> for
  a null pointer / \<^verbatim>\<open>npos\<close>.\<close>

definition strchr :: "string \<Rightarrow> char \<Rightarrow> nat option" where
  "strchr s c = (if c \<in> set s then Some (length (takeWhile (\<lambda>x. x \<noteq> c) s)) else None)"

text \<open>\<^verbatim>\<open>strncmp(a, b, n) == 0\<close> on C strings: the first \<open>n\<close> bytes agree, where a
  string that ends earlier only agrees with one that ends at the same place.\<close>

definition strncmp_eq :: "string \<Rightarrow> string \<Rightarrow> nat \<Rightarrow> bool" where
  "strncmp_eq a b n = (take n a = take n b)"

text \<open>\<^verbatim>\<open>while( *p == ' ' ) --p;\<close> starting at index \<open>p\<close>.\<close>

fun skip_back :: "string \<Rightarrow> nat \<Rightarrow> nat" where
  "skip_back s 0 = 0"
| "skip_back s (Suc p) = (if s ! Suc p = SPC then skip_back s p else Suc p)"

subsection \<open>The stream\<close>

text \<open>A \<^verbatim>\<open>FILE*\<close> opened for reading: the bytes of the file and the read position.
  \<^verbatim>\<open>fgetpos\<close> reads \<open>pos\<close>, \<^verbatim>\<open>fsetpos\<close> and \<^verbatim>\<open>rewind\<close> write it.\<close>

record FILE =
  content :: string
  pos :: nat

definition EOF :: int where "EOF = - 1"

definition rewind :: "FILE \<Rightarrow> FILE" where
  "rewind file = file\<lparr>pos := 0\<rparr>"

definition fsetpos :: "FILE \<Rightarrow> nat \<Rightarrow> FILE" where
  "fsetpos file p = file\<lparr>pos := p\<rparr>"

text \<open>\<^verbatim>\<open>fgets(buf, n, file)\<close>: at most \<open>n - 1\<close> bytes, stopping after a newline;
  \<open>None\<close> (a null pointer) when no byte could be read.  The result is the bytes stored
  in \<open>buf\<close> before the terminating NUL that \<^verbatim>\<open>fgets\<close> adds.  (The sources call it with
  \<open>n = 256\<close>; a buffer of fewer than two bytes reads nothing.)\<close>

definition fgets :: "nat \<Rightarrow> FILE \<Rightarrow> (string \<times> FILE) option" where
  "fgets n file =
     (let avail = take (n - 1) (drop (pos file) (content file));
          chunk = (case strchr avail NL of None \<Rightarrow> avail | Some k \<Rightarrow> take (Suc k) avail)
      in if chunk = [] then None else Some (chunk, file\<lparr>pos := pos file + length chunk\<rparr>))"

lemma fgets_progress:
  assumes "fgets n f = Some (buf, f')"
  shows "content f' = content f \<and> pos f < pos f' \<and> pos f' \<le> length (content f)"
proof -
  define avail where "avail = take (n - 1) (drop (pos f) (content f))"
  define chunk where "chunk = (case strchr avail NL of None \<Rightarrow> avail | Some k \<Rightarrow> take (Suc k) avail)"
  have len: "length chunk \<le> length avail"
    by (simp add: chunk_def split: option.splits)
  have av: "length avail \<le> length (content f) - pos f"
    by (simp add: avail_def)
  have eq: "fgets n f = (if chunk = [] then None else Some (chunk, f\<lparr>pos := pos f + length chunk\<rparr>))"
    unfolding fgets_def Let_def avail_def chunk_def by (rule refl)
  from assms eq have ne: "chunk \<noteq> []" and f': "f' = f\<lparr>pos := pos f + length chunk\<rparr>"
    by (auto split: if_splits)
  from ne have "0 < length chunk" by simp
  moreover from len av have "pos f + length chunk \<le> length (content f) \<or> length chunk = 0"
    by arith
  ultimately show ?thesis using f' by simp
qed

subsection \<open>GetLine\<close>

text \<open>The \<^verbatim>\<open>while\<close> loop of \<^verbatim>\<open>GetLine\<close> with the string \<open>line\<close> built so far.  \<^verbatim>\<open>strchr\<close>,
  the replacement of tabs and \<^verbatim>\<open>append\<close> work on the C string in \<open>buf\<close>, which ends at the
  first NUL byte.  The result is the status, the line and the stream.\<close>

definition tab_to_space :: "char \<Rightarrow> char" where
  "tab_to_space c = (if c = TAB then SPC else c)"

function GetLine_loop :: "FILE \<Rightarrow> nat \<Rightarrow> string \<Rightarrow> int \<times> string \<times> FILE" where
  "GetLine_loop file bufsiz line =
     (case fgets bufsiz file of
        None \<Rightarrow> (if line = [] then EOF else 0, line, file)
      | Some (buf, file') \<Rightarrow>
          (let s = takeWhile (\<lambda>x. x \<noteq> NUL) buf;
               c = strchr s NL;
               s1 = (case c of None \<Rightarrow> s | Some k \<Rightarrow> take k s);
               line' = line @ map tab_to_space s1
           in if c \<noteq> None then (0, line', file') else GetLine_loop file' bufsiz line'))"
  by pat_completeness auto
termination
proof (relation "measure (\<lambda>(file, bufsiz, line). length (content file) - pos file)")
  show "wf (measure (\<lambda>(file, bufsiz, line). length (content file) - pos file))" by simp
next
  fix f :: FILE and bufsiz :: nat and line xd :: string and x2 x y
  assume "fgets bufsiz f = Some x2" and "(x, y) = x2"
  then have "fgets bufsiz f = Some (x, y)" by simp
  from fgets_progress [OF this]
  have "length (content y) - pos y < length (content f) - pos f" by auto
  then show "((y, bufsiz, xd), f, bufsiz, line) \<in> measure (\<lambda>(file, bufsiz, line). length (content file) - pos file)"
    by simp
qed

declare GetLine_loop.simps [simp del]

definition GetLine :: "FILE \<Rightarrow> nat \<Rightarrow> int \<times> string \<times> FILE" where
  "GetLine file bufsiz = GetLine_loop file bufsiz []"

lemma GetLine_loop_progress:
  "GetLine_loop f n line = (r, l, f') \<Longrightarrow>
     content f' = content f \<and> pos f \<le> pos f' \<and> (pos f' \<le> length (content f) \<or> pos f' = pos f)
     \<and> (r = 0 \<and> line = [] \<longrightarrow> pos f < pos f') \<and> (r = 0 \<or> r = EOF)"
proof (induction f n line arbitrary: r l f' rule: GetLine_loop.induct)
  case (1 f n line)
  show ?case
  proof (cases "fgets n f")
    case None
    with "1.prems" show ?thesis
      by (auto simp: GetLine_loop.simps [of f n line] EOF_def split: if_splits)
  next
    case (Some a)
    obtain buf f1 where a: "a = (buf, f1)" by (cases a)
    from Some a have fg: "fgets n f = Some (buf, f1)" by simp
    note pr = fgets_progress [OF fg]
    let ?s = "takeWhile (\<lambda>x. x \<noteq> NUL) buf"
    let ?s1 = "case strchr ?s NL of None \<Rightarrow> ?s | Some k \<Rightarrow> take k ?s"
    let ?line = "line @ map tab_to_space ?s1"
    have unf: "GetLine_loop f n line =
        (if strchr ?s NL \<noteq> None then (0, ?line, f1) else GetLine_loop f1 n ?line)"
      by (simp add: GetLine_loop.simps [of f n line] fg Let_def)
    show ?thesis
    proof (cases "strchr ?s NL \<noteq> None")
      case True
      with unf "1.prems" pr show ?thesis by auto
    next
      case False
      with unf "1.prems" have rec: "GetLine_loop f1 n ?line = (r, l, f')" by simp
      note ih = "1.IH" [OF Some a [symmetric] refl refl refl refl False rec]
      with pr show ?thesis by auto
    qed
  qed
qed

lemma GetLine_progress:
  "GetLine f n = (0, l, f') \<Longrightarrow>
     content f' = content f \<and> pos f < pos f' \<and> pos f' \<le> length (content f)"
  unfolding GetLine_def by (drule GetLine_loop_progress) auto

lemma GetLine_result:
  "GetLine f n = (r, l, f') \<Longrightarrow>
     content f' = content f \<and> pos f \<le> pos f' \<and> (r = 0 \<or> r = EOF)"
  unfolding GetLine_def by (drule GetLine_loop_progress) auto

subsection \<open>prepare_line, IsAssignment, ReadDBline\<close>

text \<open>Modelled from the spec: \<^verbatim>\<open>Trim\<close> (declared in a header that is not part of the
  sources at hand).  The spec's line reader "records whether leading or trailing
  whitespace was present before trim; then trims": whitespace is removed from both ends.\<close>

definition Trim :: "string \<Rightarrow> string" where
  "Trim s = rev (dropWhile isspace (rev (dropWhile isspace s)))"

text \<open>\<^verbatim>\<open>std::min\<close> of two \<^verbatim>\<open>find\<close> results, \<^verbatim>\<open>npos\<close> being the largest value.\<close>

fun min_npos :: "nat option \<Rightarrow> nat option \<Rightarrow> nat option" where
  "min_npos None b = b"
| "min_npos a None = a"
| "min_npos (Some a) (Some b) = Some (min a b)"

text \<open>\<^verbatim>\<open>prepare_line(linbuf, comment, continued, leading_space, trailing_space)\<close>: the
  four flags are \<^verbatim>\<open>false\<close> at the only call; the result is the new \<^verbatim>\<open>linbuf\<close> and the
  flags in the order of the parameters.\<close>

definition prepare_line :: "string \<Rightarrow> string \<times> bool \<times> bool \<times> bool \<times> bool" where
  "prepare_line linbuf =
     (if linbuf = [] then ([], False, False, False, False)
      else
        (let pos1 = strchr linbuf (CHR ''#'') in
         if pos1 = Some 0 then ([], True, False, False, False)
         else
           (let pos2 = strchr linbuf BSL;
                cut = min_npos pos1 pos2;
                continued = (cut \<noteq> None \<and> cut = pos2);
                comment = (cut \<noteq> None \<and> cut \<noteq> pos2);
                linbuf1 = (case cut of None \<Rightarrow> linbuf | Some k \<Rightarrow> take k linbuf)
            in if linbuf1 = [] then (linbuf1, comment, continued, False, False)
               else
                 (let leading_space = isspace (hd linbuf1);
                      trailing_space = isspace (last linbuf1)
                  in (if leading_space \<or> trailing_space then Trim linbuf1 else linbuf1,
                      comment, continued, leading_space, trailing_space)))))"

definition IsAssignment :: "string \<Rightarrow> bool" where
  "IsAssignment str =
     (case strchr str (CHR ''='') of
        None \<Rightarrow> False
      | Some p \<Rightarrow>
          (let c = length (takeWhile isspace str) in
           if c = p then False
           else \<not> (str ! (p - 1) = CHR ''!'' \<or> str ! (p - 1) = CHR ''<'' \<or> str ! (p - 1) = CHR ''>''
                    \<or> (p + 1 < length str \<and> str ! (p + 1) = CHR ''=''))))"

text \<open>The \<^verbatim>\<open>while\<close> loop of \<^verbatim>\<open>ReadDBline\<close>.  The loop state is the stream, the result
  \<open>line\<close>, \<open>maybe_continued\<close>, \<open>unfinished\<close>, \<open>oldpos\<close> and \<open>r\<close>; \<^verbatim>\<open>continue\<close> is the
  recursive call, \<^verbatim>\<open>break\<close> returns.\<close>

function ReadDBline_loop ::
  "FILE \<Rightarrow> nat \<Rightarrow> string \<Rightarrow> bool \<Rightarrow> bool \<Rightarrow> nat \<Rightarrow> int \<Rightarrow> int \<times> string \<times> FILE \<times> bool \<times> nat" where
  "ReadDBline_loop file bufsiz line maybe_continued unfinished oldpos r =
     (if \<not> unfinished then (r, line, file, maybe_continued, oldpos)
      else
        (case GetLine file bufsiz of (r', raw, file') \<Rightarrow>
           if r' \<noteq> 0 then (r', line, file', maybe_continued, pos file)
           else
             (case prepare_line raw of (linbuf, comment, continued, leading_space, trailing_space) \<Rightarrow>
                if line = [] \<and> linbuf = [] then
                  ReadDBline_loop file' bufsiz line maybe_continued unfinished (pos file) r'
                else if linbuf \<noteq> [] then
                  (let is_assignment = IsAssignment linbuf in
                   if maybe_continued \<and> is_assignment then
                     (r', line, fsetpos file' (pos file), maybe_continued, pos file)
                   else
                     (let maybe_continued' =
                            (maybe_continued \<or> (line = [] \<and> \<not> continued \<and> is_assignment));
                          unfinished' = (continued \<or> maybe_continued');
                          linbuf' = (if maybe_continued' \<or> (trailing_space \<and> continued)
                                     then linbuf @ [SPC] else linbuf);
                          line' = (if leading_space \<and> line \<noteq> [] \<and> \<not> isspace (last line)
                                   then line @ [SPC] else line)
                      in ReadDBline_loop file' bufsiz (line' @ linbuf') maybe_continued' unfinished'
                           (pos file) r'))
                else if continued \<or> comment then
                  ReadDBline_loop file' bufsiz line maybe_continued unfinished (pos file) r'
                else (r', line, file', maybe_continued, pos file))))"
  by pat_completeness auto
termination
  by (relation "measure (\<lambda>(file, bufsiz, line, mc, unf, oldpos, r). length (content file) - pos file)")
     (auto dest!: GetLine_progress [OF sym])

declare ReadDBline_loop.simps [simp del]

definition ReadDBline :: "FILE \<Rightarrow> nat \<Rightarrow> int \<times> string \<times> FILE" where
  "ReadDBline file bufsiz =
     (case ReadDBline_loop file bufsiz [] False True 0 0 of
        (r, line, file', maybe_continued, oldpos) \<Rightarrow>
          if maybe_continued then
            (let file2 = (if r = EOF then fsetpos file' oldpos else file');
                 r2 = (if r = EOF then 0 else r);
                 line2 = (if line \<noteq> [] \<and> isspace (last line) then butlast line else line)
             in (r2, line2, file2))
          else (r, line, file'))"

lemma ReadDBline_loop_progress:
  "ReadDBline_loop f n line mc unf oldpos r = (r', line', f', mc', oldpos') \<Longrightarrow> unf \<Longrightarrow>
     content f' = content f \<and> (r' = 0 \<or> r' = EOF) \<and> (mc \<longrightarrow> mc')
     \<and> (r' = 0 \<longrightarrow> pos f < length (content f) \<and> (if mc then pos f \<le> pos f' else pos f < pos f'))
     \<and> (r' \<noteq> 0 \<longrightarrow> mc' \<longrightarrow> \<not> mc \<longrightarrow> pos f < length (content f) \<and> pos f < oldpos')
     \<and> (r' \<noteq> 0 \<longrightarrow> mc' \<longrightarrow> pos f \<le> oldpos')"
proof (induction "length (content f) - pos f" arbitrary: f line mc unf oldpos r r' line' f' mc' oldpos'
    rule: less_induct)
  case less
  obtain r1 raw f1 where gl: "GetLine f n = (r1, raw, f1)" by (cases "GetLine f n") auto
  note res = GetLine_result [OF gl]
  note unf = \<open>unf\<close>
  show ?case
  proof (cases "r1 = 0")
    case False
    with gl less.prems res show ?thesis
      by (subst (asm) ReadDBline_loop.simps) auto
  next
    case True
    with gl have gl0: "GetLine f n = (0, raw, f1)" by simp
    note pr = GetLine_progress [OF gl0]
    obtain linbuf comment continued leading_space trailing_space
      where pl: "prepare_line raw = (linbuf, comment, continued, leading_space, trailing_space)"
      by (cases "prepare_line raw") auto
    have rec: "content f' = content f \<and> (r' = 0 \<or> r' = EOF) \<and> (m \<longrightarrow> mc')
        \<and> (r' = 0 \<longrightarrow> pos f < length (content f) \<and> pos f < pos f')
        \<and> (r' \<noteq> 0 \<longrightarrow> mc' \<longrightarrow> pos f < length (content f) \<and> pos f < oldpos')"
      if call: "ReadDBline_loop f1 n l m u (pos f) 0 = (r', line', f', mc', oldpos')" for l m u
    proof (cases u)
      case False
      with call pr show ?thesis
        by (subst (asm) ReadDBline_loop.simps) auto
    next
      case True
      from pr have "length (content f1) - pos f1 < length (content f) - pos f" by auto
      from less.hyps [OF this call True] pr show ?thesis
        by (auto split: if_splits)
    qed
    from less.prems(1) unf gl0 pl show ?thesis
      apply (subst (asm) ReadDBline_loop.simps)
      apply (simp add: Let_def fsetpos_def split: if_splits)
      using pr apply (auto dest!: rec)
      done
  qed
qed

lemma ReadDBline_progress:
  assumes "ReadDBline f n = (r, line, f')" and "r \<noteq> EOF"
  shows "content f' = content f \<and> pos f < pos f' \<and> pos f < length (content f) \<and> r = 0"
proof -
  obtain r0 line0 f0 mc0 oldpos0
    where lp: "ReadDBline_loop f n [] False True 0 0 = (r0, line0, f0, mc0, oldpos0)"
    by (cases "ReadDBline_loop f n [] False True 0 0") auto
  note pr = ReadDBline_loop_progress [OF lp]
  from assms lp pr show ?thesis
    by (auto simp: ReadDBline_def Let_def fsetpos_def EOF_def split: if_splits)
qed

subsection \<open>Time stamps\<close>

text \<open>ROOT's \<^verbatim>\<open>TDatime\<close> is its packed 32-bit field \<^verbatim>\<open>fDatime\<close>; the comparison
  operators of the class compare that field.  \<^verbatim>\<open>Set(year, month, day, hour, min, sec)\<close>
  adds 1900 to a year below 159, leaves the object as it is for a year before 1995 and
  otherwise packs the six fields; \<^verbatim>\<open>GetDate()\<close> unpacks year, month and day.\<close>

type_synonym TDatime = nat

definition TDatime_Set :: "TDatime \<Rightarrow> int \<Rightarrow> int \<Rightarrow> int \<Rightarrow> int \<Rightarrow> int \<Rightarrow> int \<Rightarrow> TDatime" where
  "TDatime_Set old year month day hour minute sec =
     (let y = (if year < 159 then year + 1900 else year) in
      if y < 1995 then old
      else nat ((push_bit 26 (y - 1995) OR push_bit 22 month OR push_bit 17 day OR push_bit 12 hour
                 OR push_bit 6 minute OR sec) mod 2 ^ 32))"

definition GetDate :: "TDatime \<Rightarrow> int" where
  "GetDate d = 10000 * (int (d div 2 ^ 26) + 1995) + 100 * int ((d div 2 ^ 22) mod 16)
               + int ((d div 2 ^ 17) mod 32)"

text \<open>\<^verbatim>\<open>TDatime(950101, 0)\<close>: 1995-01-01 00:00:00.\<close>

definition sentinel :: TDatime where
  "sentinel = TDatime_Set 0 95 1 1 0 0 0"

subsection \<open>What the functions take from their environment\<close>

text \<open>The numeric types a request can name (ROOT's typedefs on x86-64 Linux, where
  \<^verbatim>\<open>Char_t\<close> is a signed \<^verbatim>\<open>char\<close>).\<close>

datatype ctype = Double_t | Float_t | Long64_t | ULong64_t | Int_t | UInt_t
  | Short_t | UShort_t | Char_t | Byte_t

record tm =
  tm_year :: int
  tm_mon :: int
  tm_mday :: int
  tm_hour :: int
  tm_min :: int
  tm_sec :: int

text \<open>The C library and the global text-variable object are parameters.
  \<^item> \<open>Substitute\<close>: \<^verbatim>\<open>gHaTextvars\<close>, \<open>None\<close> for a null pointer, else what
    \<^verbatim>\<open>Substitute\<close> makes of a one-line vector.
  \<^item> \<open>strptime_tz\<close>, \<open>strptime_notz\<close>: \<^verbatim>\<open>strptime\<close> with the format
    \<^verbatim>\<open>" %Y-%m-%d %H:%M:%S %z "\<close> and \<^verbatim>\<open>" %Y-%m-%d %H:%M:%S "\<close>; \<open>Some\<close> exactly
    when the call returns the end of the string.  The second component is the value
    the call stores in \<^verbatim>\<open>errno\<close>, \<open>0\<close> when it leaves \<^verbatim>\<open>errno\<close> alone.
  \<^item> \<open>to_localtime\<close>: the glibc branch of \<^verbatim>\<open>IsDBdate\<close> that shifts a stamp with an
    explicit zone to local time through \<^verbatim>\<open>mktime\<close>; \<open>None\<close> when \<^verbatim>\<open>mktime\<close> fails;
    with the value stored in \<^verbatim>\<open>errno\<close> as for \<^verbatim>\<open>strptime\<close>.
  \<^item> \<open>strtofp\<close>: \<^verbatim>\<open>strtof\<close>, \<^verbatim>\<open>strtod\<close>, \<^verbatim>\<open>strtold\<close> as value, number of bytes
    consumed and whether \<^verbatim>\<open>errno\<close> was set; \<open>fp_le\<close>, \<open>fp_max\<close>, \<open>fp_neg\<close>,
    \<open>fp_zero\<close>: the order, \<^verbatim>\<open>numeric_limits<T>::max()\<close>, negation and zero of the
    floating-point values \<open>'f\<close>.\<close>

record 'f env =
  Substitute :: "(string \<Rightarrow> string list) option"
  strptime_tz :: "string \<Rightarrow> tm option \<times> int"
  strptime_notz :: "string \<Rightarrow> tm option \<times> int"
  to_localtime :: "tm \<Rightarrow> tm option \<times> int"
  strtofp :: "ctype \<Rightarrow> string \<Rightarrow> 'f \<times> nat \<times> bool"
  fp_le :: "'f \<Rightarrow> 'f \<Rightarrow> bool"
  fp_max :: "ctype \<Rightarrow> 'f"
  fp_neg :: "'f \<Rightarrow> 'f"
  fp_zero :: "'f"

subsection \<open>IsDBdate, IsDBkey\<close>

text \<open>\<^verbatim>\<open>a - b\<close> on \<^verbatim>\<open>size_t\<close> (64 bits).\<close>

definition size_sub :: "nat \<Rightarrow> nat \<Rightarrow> nat" where
  "size_sub a b = (if b \<le> a then a - b else 2 ^ 64 + a - b)"

text \<open>\<^verbatim>\<open>string::find(c, from)\<close>.\<close>

definition find_from :: "string \<Rightarrow> char \<Rightarrow> nat \<Rightarrow> nat option" where
  "find_from s c i = map_option (\<lambda>k. k + i) (strchr (drop i s) c)"

text \<open>A library call that stores \<open>e\<close> in \<^verbatim>\<open>errno\<close>, or leaves it alone when \<open>e = 0\<close>.\<close>

definition set_errno :: "int \<Rightarrow> int \<Rightarrow> int" where
  "set_errno errno e = (if e = 0 then errno else e)"

text \<open>The result is the status, the new value of the reference parameter \<open>date\<close> and the
  new value of \<^verbatim>\<open>errno\<close>, which is cleared only when the stamp is accepted.\<close>

definition IsDBdate :: "'f env \<Rightarrow> string \<Rightarrow> TDatime \<Rightarrow> int \<Rightarrow> int \<times> TDatime \<times> int" where
  "IsDBdate env line date errno =
     (case strchr line (CHR ''['') of
        None \<Rightarrow> (0, date, errno)
      | Some lbrk \<Rightarrow>
          if lbrk \<ge> size_sub (length line) 12 then (0, date, errno)
          else
            (case find_from line (CHR '']'') lbrk of
               None \<Rightarrow> (0, date, errno)
             | Some rbrk \<Rightarrow>
                 if rbrk \<le> lbrk + 11 then (0, date, errno)
                 else
                   (let ts = take (rbrk - lbrk - 1) (drop (lbrk + 1) line);
                        errno1 = set_errno errno (snd (strptime_tz env ts));
                        parsed = (case fst (strptime_tz env ts) of
                                    None \<Rightarrow> fst (strptime_notz env ts)
                                  | Some tmc \<Rightarrow> fst (to_localtime env tmc));
                        errno2 = (case fst (strptime_tz env ts) of
                                    None \<Rightarrow> set_errno errno1 (snd (strptime_notz env ts))
                                  | Some tmc \<Rightarrow> set_errno errno1 (snd (to_localtime env tmc)))
                    in case parsed of
                         None \<Rightarrow> (0, date, errno2)
                       | Some tmc \<Rightarrow>
                           if tm_year tmc < 95 then (0, date, errno2)
                           else (1, TDatime_Set date (tm_year tmc + 1900) (tm_mon tmc + 1)
                                      (tm_mday tmc) (tm_hour tmc) (tm_min tmc) (tm_sec tmc), 0))))"

text \<open>The result is the status and the new value of the reference parameter \<open>text\<close>.\<close>

definition IsDBkey :: "string \<Rightarrow> string \<Rightarrow> string \<Rightarrow> int \<times> string" where
  "IsDBkey line key text =
     (case strchr line (CHR ''='') of
        None \<Rightarrow> (0, text)
      | Some eq \<Rightarrow>
          (let ln = length (takeWhile (\<lambda>c. c = SPC) line) in
           if ln = eq then (- 1, text)
           else
             (let p = skip_back line (eq - 1) in
              if \<not> strncmp_eq (drop ln line) key (p - ln + 1) then (- 1, text)
              else (1, dropWhile (\<lambda>c. c = SPC) (drop (eq + 1) line)))))"

subsection \<open>LoadDBvalue\<close>

text \<open>The locals of \<^verbatim>\<open>LoadDBvalue\<close> that live across lines, the reference
  parameter \<open>value\<close>, and \<^verbatim>\<open>errno\<close>.\<close>

record scan =
  found :: bool
  do_ignore :: bool
  keydate :: TDatime
  prevdate :: TDatime
  "value" :: string
  errno :: int

definition scan_init :: "string \<Rightarrow> scan" where
  "scan_init v = \<lparr>found = False, do_ignore = False, keydate = sentinel, prevdate = sentinel,
                   value = v, errno = 0\<rparr>"

text \<open>The body of \<^verbatim>\<open>for( auto& line : lines )\<close>.\<close>

definition scan_date :: "'f env \<Rightarrow> TDatime \<Rightarrow> scan \<Rightarrow> string \<Rightarrow> scan" where
  "scan_date env date st line =
     (case IsDBdate env line (keydate st) (errno st) of (status, kd, e) \<Rightarrow>
        if status \<noteq> 0 then st\<lparr>keydate := kd, errno := e, do_ignore := (kd > date \<or> kd < prevdate st)\<rparr>
        else st\<lparr>keydate := kd, errno := e\<rparr>)"

definition scan_line :: "'f env \<Rightarrow> TDatime \<Rightarrow> string \<Rightarrow> scan \<Rightarrow> string \<Rightarrow> scan" where
  "scan_line env date key st line =
     (if do_ignore st then scan_date env date st line
      else
        (case IsDBkey line key (value st) of (status, v) \<Rightarrow>
           if status \<noteq> 0 then
             (if status > 0 then st\<lparr>value := v, found := True, prevdate := keydate st\<rparr>
              else st\<lparr>value := v\<rparr>)
           else scan_date env date st line))"

definition bufsiz :: nat where "bufsiz = 256"

function LoadDBvalue_loop :: "'f env \<Rightarrow> FILE \<Rightarrow> TDatime \<Rightarrow> string \<Rightarrow> scan \<Rightarrow> scan \<times> FILE" where
  "LoadDBvalue_loop env file date key st =
     (case ReadDBline file bufsiz of (r, dbline, file') \<Rightarrow>
        if r = EOF then (st, file')
        else if dbline = [] then LoadDBvalue_loop env file' date key st
        else
          (let lines = (case Substitute env of None \<Rightarrow> [dbline] | Some subst \<Rightarrow> subst dbline)
           in LoadDBvalue_loop env file' date key (foldl (scan_line env date key) st lines)))"
  by pat_completeness auto
termination
  by (relation "measure (\<lambda>(env, file, date, key, st). length (content file) - pos file)")
     (auto dest!: ReadDBline_progress [OF sym])

declare LoadDBvalue_loop.simps [simp del]

text \<open>The result is the status and the new value of the reference parameter \<open>value\<close>.
  \<^verbatim>\<open>errno\<close> is cleared before the scan and tested after it.\<close>

definition LoadDBvalue :: "'f env \<Rightarrow> FILE \<Rightarrow> TDatime \<Rightarrow> string \<Rightarrow> string \<Rightarrow> int \<times> string" where
  "LoadDBvalue env file date key v =
     (case LoadDBvalue_loop env (rewind file) date key (scan_init v) of (st, file') \<Rightarrow>
        (if errno st \<noteq> 0 then - 1 else if found st then 0 else 1, value st))"

subsection \<open>Numeric conversion\<close>

fun is_integral :: "ctype \<Rightarrow> bool" where
  "is_integral Double_t = False"
| "is_integral Float_t = False"
| "is_integral _ = True"

fun is_signed :: "ctype \<Rightarrow> bool" where
  "is_signed ULong64_t = False"
| "is_signed UInt_t = False"
| "is_signed UShort_t = False"
| "is_signed Byte_t = False"
| "is_signed _ = True"

text \<open>Width in bits of the integral types.\<close>

fun bits :: "ctype \<Rightarrow> nat" where
  "bits Long64_t = 64"
| "bits ULong64_t = 64"
| "bits Int_t = 32"
| "bits UInt_t = 32"
| "bits Short_t = 16"
| "bits UShort_t = 16"
| "bits Char_t = 8"
| "bits Byte_t = 8"
| "bits _ = 0"

text \<open>\<^verbatim>\<open>numeric_limits<T>::min()\<close> and \<^verbatim>\<open>max()\<close> of an integral type.\<close>

definition numeric_min :: "ctype \<Rightarrow> int" where
  "numeric_min T = (if is_signed T then - (2 ^ (bits T - 1)) else 0)"

definition numeric_max :: "ctype \<Rightarrow> int" where
  "numeric_max T = (if is_signed T then 2 ^ (bits T - 1) - 1 else 2 ^ bits T - 1)"

definition LLONG_MAX :: int where "LLONG_MAX = 2 ^ 63 - 1"
definition LLONG_MIN :: int where "LLONG_MIN = - (2 ^ 63)"
definition ULLONG_MAX :: int where "ULLONG_MAX = 2 ^ 64 - 1"

definition digit_val :: "char \<Rightarrow> nat" where
  "digit_val c = of_char c - 48"

definition digits_val :: "string \<Rightarrow> nat" where
  "digits_val ds = foldl (\<lambda>acc c. 10 * acc + digit_val c) 0 ds"

text \<open>The subject sequence of \<^verbatim>\<open>strtoll\<close> and \<^verbatim>\<open>strtoull\<close> in base 10 (ISO C): white
  space, an optional sign, decimal digits.  \<open>None\<close> when there is no digit; else the sign,
  the magnitude and the index after the last digit.\<close>

definition strto_scan :: "string \<Rightarrow> (bool \<times> nat \<times> nat) option" where
  "strto_scan s =
     (let ws = length (takeWhile isspace s);
          r1 = drop ws s;
          neg = (r1 \<noteq> [] \<and> hd r1 = CHR ''-'');
          sl = (if r1 \<noteq> [] \<and> (hd r1 = CHR ''-'' \<or> hd r1 = CHR ''+'') then 1 else 0);
          ds = takeWhile isdigit (drop sl r1)
      in if ds = [] then None else Some (neg, digits_val ds, ws + sl + length ds))"

text \<open>\<^verbatim>\<open>strtoll(p, &end, 10)\<close> and \<^verbatim>\<open>strtoull(p, &end, 10)\<close>: the value, the index
  \<open>end\<close> (\<open>0\<close> for \<^verbatim>\<open>end == p\<close>) and whether \<^verbatim>\<open>errno\<close> was set to \<^verbatim>\<open>ERANGE\<close>.  A value
  out of range is clamped; \<^verbatim>\<open>strtoull\<close> negates a value with a minus sign in the
  unsigned type.\<close>

definition strtoll :: "string \<Rightarrow> int \<times> nat \<times> bool" where
  "strtoll s =
     (case strto_scan s of
        None \<Rightarrow> (0, 0, False)
      | Some (neg, m, e) \<Rightarrow>
          (let v = (if neg then - int m else int m) in
           if v > LLONG_MAX then (LLONG_MAX, e, True)
           else if v < LLONG_MIN then (LLONG_MIN, e, True)
           else (v, e, False)))"

definition strtoull :: "string \<Rightarrow> int \<times> nat \<times> bool" where
  "strtoull s =
     (case strto_scan s of
        None \<Rightarrow> (0, 0, False)
      | Some (neg, m, e) \<Rightarrow>
          if int m > ULLONG_MAX then (ULLONG_MAX, e, True)
          else ((if neg then (- int m) mod 2 ^ 64 else int m), e, False))"

text \<open>A converted value: of the widest integer type, or floating.\<close>

datatype 'f num = IntVal int | FpVal 'f

text \<open>\<^verbatim>\<open>convert_string<T>(p, end)\<close>: \<^verbatim>\<open>strtoll\<close> for a signed integral \<open>T\<close>,
  \<^verbatim>\<open>strtoull\<close> for an unsigned one, the floating-point parser otherwise (its \<open>end\<close>
  lies within the string).\<close>

definition convert_string :: "'f env \<Rightarrow> ctype \<Rightarrow> string \<Rightarrow> 'f num \<times> nat \<times> bool" where
  "convert_string env T p =
     (if is_integral T then
        (case (if is_signed T then strtoll p else strtoull p) of (v, e, err) \<Rightarrow> (IntVal v, e, err))
      else (case strtofp env T p of (v, e, err) \<Rightarrow> (FpVal v, min e (length p), err)))"

text \<open>\<^verbatim>\<open>is_in_range<T, S>(val)\<close>; \<open>s_signed\<close> is \<^verbatim>\<open>is_signed<S>::value\<close> of the type
  \<open>S\<close> of \<open>val\<close>.\<close>

definition is_in_range :: "'f env \<Rightarrow> ctype \<Rightarrow> bool \<Rightarrow> 'f num \<Rightarrow> bool" where
  "is_in_range env T s_signed val =
     (case val of
        IntVal v \<Rightarrow>
          (let ret = (v \<le> numeric_max T) in
           if ret then
             (if is_integral T then
                (if s_signed then (if \<not> is_signed T then v \<ge> 0 else v \<ge> numeric_min T)
                 else ret)
              else ret)
           else ret)
      | FpVal v \<Rightarrow>
          (let ret = fp_le env v (fp_max env T) in
           if ret then
             (if is_integral T then ret else fp_le env (fp_neg env (fp_max env T)) v)
           else ret))"

text \<open>\<^verbatim>\<open>static_cast<T>(dval)\<close>.\<close>

definition static_cast :: "ctype \<Rightarrow> 'f num \<Rightarrow> 'f num" where
  "static_cast T val =
     (case val of
        IntVal v \<Rightarrow>
          (if is_signed T then IntVal (((v + 2 ^ (bits T - 1)) mod 2 ^ bits T) - 2 ^ (bits T - 1))
           else IntVal (v mod 2 ^ bits T))
      | FpVal v \<Rightarrow> FpVal v)"

definition conversion_error :: int where
  "conversion_error = - 131"

text \<open>The test after \<^verbatim>\<open>convert_string\<close>, shared by the scalar and the array loader:
  \<^verbatim>\<open>p == end || (end && *end && !isspace(*end)) || errno != 0 || !is_in_range<T>(dval)\<close>
  where \<open>s\<close> is the C string at \<open>p\<close>.\<close>

definition conversion_failed :: "'f env \<Rightarrow> ctype \<Rightarrow> string \<Rightarrow> 'f num \<times> nat \<times> bool \<Rightarrow> bool" where
  "conversion_failed env T s res =
     (case res of (dval, e, err) \<Rightarrow>
        e = 0 \<or> (e < length s \<and> \<not> isspace (s ! e)) \<or> err \<or> \<not> is_in_range env T (is_signed T) dval)"

text \<open>The numeric \<^verbatim>\<open>LoadDBvalue<T>\<close>: status and the new value of \<open>value\<close>.\<close>

definition LoadDBvalue_num ::
  "'f env \<Rightarrow> FILE \<Rightarrow> TDatime \<Rightarrow> string \<Rightarrow> ctype \<Rightarrow> 'f num \<Rightarrow> int \<times> 'f num" where
  "LoadDBvalue_num env file date key T v =
     (case LoadDBvalue env file date key [] of (err, text) \<Rightarrow>
        if err \<noteq> 0 then (err, v)
        else
          (let res = convert_string env T text in
           if conversion_failed env T text res then (conversion_error, v)
           else (0, static_cast T (fst res))))"

lemma strto_scan_end:
  assumes "strto_scan s = Some (neg, m, e)"
  shows "0 < e \<and> e \<le> length s"
proof -
  define ws where "ws = length (takeWhile isspace s)"
  define r1 where "r1 = drop ws s"
  define sl :: nat where "sl = (if r1 \<noteq> [] \<and> (hd r1 = CHR ''-'' \<or> hd r1 = CHR ''+'') then 1 else 0)"
  define ds where "ds = takeWhile isdigit (drop sl r1)"
  have eq: "strto_scan s = (if ds = [] then None
      else Some (r1 \<noteq> [] \<and> hd r1 = CHR ''-'', digits_val ds, ws + sl + length ds))"
    unfolding strto_scan_def Let_def ws_def r1_def sl_def ds_def by (rule refl)
  with assms have ne: "ds \<noteq> []" and e: "e = ws + sl + length ds"
    by (auto split: if_splits)
  have "ws \<le> length s" by (simp add: ws_def length_takeWhile_le)
  then have l1: "ws + length r1 = length s" by (simp add: r1_def)
  have "length ds \<le> length (drop sl r1)" unfolding ds_def by (rule length_takeWhile_le)
  moreover have "sl \<le> length r1" by (cases r1) (auto simp: sl_def)
  ultimately have "sl + length ds \<le> length r1" by simp
  with l1 e ne show ?thesis by (cases ds) auto
qed

lemma convert_string_end:
  "fst (snd (convert_string env T s)) \<le> length s"
proof (cases "is_integral T")
  case False
  then show ?thesis by (simp add: convert_string_def split: prod.splits)
next
  case True
  have "fst (snd (strtoll s)) \<le> length s"
    by (auto simp: strtoll_def Let_def split: option.splits dest: strto_scan_end)
  moreover have "fst (snd (strtoull s)) \<le> length s"
    by (auto simp: strtoull_def Let_def split: option.splits dest: strto_scan_end)
  ultimately show ?thesis using True
    by (auto simp: convert_string_def split: prod.splits)
qed

text \<open>The \<^verbatim>\<open>while( true )\<close> loop of \<^verbatim>\<open>LoadDBarray\<close>; \<open>p\<close> is an index into \<open>text\<close>.\<close>

function LoadDBarray_loop ::
  "'f env \<Rightarrow> ctype \<Rightarrow> string \<Rightarrow> nat \<Rightarrow> 'f num list \<Rightarrow> int \<times> 'f num list" where
  "LoadDBarray_loop env T text p values =
     (let res = convert_string env T (drop p text) in
      if conversion_failed env T (drop p text) res then (conversion_error, values)
      else
        (let values' = values @ [static_cast T (fst res)];
             e = p + fst (snd res)
         in if e = length text then (0, values')
            else LoadDBarray_loop env T text e values'))"
  by pat_completeness auto

termination
proof (relation "measure (\<lambda>(env, T, text, p, values). length text - p)", goal_cases)
  case 1
  show ?case by simp
next
  case (2 env T s p vs res vs' e)
  have le: "fst (snd (convert_string env T (drop p s))) \<le> length (drop p s)"
    by (rule convert_string_end)
  from 2 have "fst (snd res) \<noteq> 0"
    by (auto simp: conversion_failed_def split: prod.splits)
  with 2 le show ?case by auto
qed

declare LoadDBarray_loop.simps [simp del]

text \<open>\<^verbatim>\<open>LoadDBarray<T>\<close>: status and the new contents of the vector \<open>values\<close>, which
  is cleared once the key is found and keeps the fields converted so far when a later
  field fails.  (The count of fields that only sizes \<^verbatim>\<open>reserve\<close> is left out.)\<close>

definition LoadDBarray ::
  "'f env \<Rightarrow> FILE \<Rightarrow> TDatime \<Rightarrow> string \<Rightarrow> ctype \<Rightarrow> 'f num list \<Rightarrow> int \<times> 'f num list" where
  "LoadDBarray env file date key T values =
     (case LoadDBvalue env file date key [] of (err, text) \<Rightarrow>
        if err \<noteq> 0 then (err, values)
        else LoadDBarray_loop env T text 0 [])"

text \<open>What a C++ operation with undefined behaviour, or one that throws, does not return.\<close>

datatype fault = DivisionByZero | OutOfBounds

text \<open>\<^verbatim>\<open>LoadDBmatrix<T>\<close>.  \<^verbatim>\<open>tmpval.size() % ncols\<close> is evaluated whenever the array
  was read; with \<open>ncols = 0\<close> the behaviour is undefined.  The two loops fill row
  \<open>irow\<close> with \<^verbatim>\<open>tmpval.at(i + irow * ncols)\<close> for \<open>i < ncols\<close>.\<close>

definition LoadDBmatrix ::
  "'f env \<Rightarrow> FILE \<Rightarrow> TDatime \<Rightarrow> string \<Rightarrow> ctype \<Rightarrow> 'f num list list \<Rightarrow> nat
     \<Rightarrow> fault + int \<times> 'f num list list" where
  "LoadDBmatrix env file date key T values ncols =
     (case LoadDBarray env file date key T [] of (err, tmpval) \<Rightarrow>
        if err \<noteq> 0 then Inr (err, values)
        else if ncols = 0 then Inl DivisionByZero
        else if length tmpval mod ncols \<noteq> 0 then Inr (- 129, values)
        else
          (let nrows = length tmpval div ncols
           in Inr (0, map (\<lambda>irow. map (\<lambda>i. tmpval ! (i + irow * ncols)) [0..<ncols]) [0..<nrows])))"

subsection \<open>LoadDatabase\<close>

text \<open>The type codes of \<^verbatim>\<open>VarType.h\<close> that \<^verbatim>\<open>LoadDatabase\<close> switches on; \<open>kOther\<close>
  stands for every other code, which the switch sends to \<^verbatim>\<open>default\<close>.\<close>

datatype VarType = kDouble | kFloat | kLong | kULong | kInt | kUInt | kShort | kUShort
  | kChar | kByte | kString | kTString | kFloatV | kDoubleV | kIntV
  | kFloatM | kDoubleM | kIntM | kOther

text \<open>\<^verbatim>\<open>struct DBRequest\<close> (\<^verbatim>\<open>VarDef.h\<close>).  \<open>var\<close> is the address of the destination,
  \<open>None\<close> for a null pointer.  A request array is the list of its items before the
  terminating item, whose \<open>name\<close> is null.\<close>

record DBRequest =
  name :: string
  var :: "nat option"
  type :: VarType
  nelem :: nat
  optional :: bool
  search :: int
  descript :: "string option"

text \<open>What a destination holds, and the memory the destinations live in.\<close>

datatype 'f dest = Scalar "'f num" | Array "'f num list" | String string | TString string
  | Vector "'f num list" | Matrix "'f num list list"

type_synonym 'f store = "nat \<Rightarrow> 'f dest option"

text \<open>\<^verbatim>\<open>sizeof(T)\<close> in bytes.\<close>

fun sizeof :: "ctype \<Rightarrow> nat" where
  "sizeof Double_t = 8"
| "sizeof Float_t = 4"
| "sizeof Long64_t = 8"
| "sizeof ULong64_t = 8"
| "sizeof Int_t = 4"
| "sizeof UInt_t = 4"
| "sizeof Short_t = 2"
| "sizeof UShort_t = 2"
| "sizeof Char_t = 1"
| "sizeof Byte_t = 1"

text \<open>\<^verbatim>\<open>load_and_assign<T>\<close>: status and memory; \<open>nel\<close> is the parameter \<^verbatim>\<open>nelem\<close>,
  whose update only feeds a message and is left out.  The scalar is copied with
  \<^verbatim>\<open>memcpy(dest, &val, sizeof(T))\<close>.  The array is copied with
  \<^verbatim>\<open>memcpy(dest, vals.data(), nelem*sizeof(Double_t))\<close> for every \<open>T\<close>: the vector holds
  \<open>nelem * sizeof(T)\<close> bytes, so for a \<open>T\<close> narrower than \<^verbatim>\<open>Double_t\<close> the copy reads past
  the end of the vector (and writes past \<open>nelem\<close> elements of \<open>T\<close> at \<open>dest\<close>), which is
  undefined behaviour.\<close>

definition load_and_assign ::
  "'f env \<Rightarrow> FILE \<Rightarrow> TDatime \<Rightarrow> string \<Rightarrow> ctype \<Rightarrow> nat \<Rightarrow> nat \<Rightarrow> 'f store
     \<Rightarrow> fault + int \<times> 'f store" where
  "load_and_assign env f date key T dest nel store =
     (if nel < 2 then
        (case LoadDBvalue_num env f date key T (if is_integral T then IntVal 0 else FpVal (fp_zero env)) of
           (st, val) \<Rightarrow> if st = 0 then Inr (st, store(dest \<mapsto> Scalar val)) else Inr (st, store))
      else
        (case LoadDBarray env f date key T [] of
           (st, vals) \<Rightarrow>
             if st = 0 then
               (if length vals \<noteq> nel then Inr (- 130, store)
                else if nel * sizeof Double_t \<le> length vals * sizeof T
                then Inr (st, store(dest \<mapsto> Array vals))
                else Inl OutOfBounds)
             else Inr (st, store)))"

text \<open>\<^verbatim>\<open>load_and_assign_vector<T>\<close>: \<^verbatim>\<open>LoadDBarray\<close> works on the vector at \<open>dest\<close>
  itself.\<close>

definition vector_at :: "'f store \<Rightarrow> nat \<Rightarrow> 'f num list" where
  "vector_at store dest = (case store dest of Some (Vector v) \<Rightarrow> v | _ \<Rightarrow> [])"

definition matrix_at :: "'f store \<Rightarrow> nat \<Rightarrow> 'f num list list" where
  "matrix_at store dest = (case store dest of Some (Matrix m) \<Rightarrow> m | _ \<Rightarrow> [])"

definition string_at :: "'f store \<Rightarrow> nat \<Rightarrow> string" where
  "string_at store dest = (case store dest of Some (String s) \<Rightarrow> s | _ \<Rightarrow> [])"

definition load_and_assign_vector ::
  "'f env \<Rightarrow> FILE \<Rightarrow> TDatime \<Rightarrow> string \<Rightarrow> ctype \<Rightarrow> nat \<Rightarrow> nat \<Rightarrow> 'f store \<Rightarrow> int \<times> 'f store" where
  "load_and_assign_vector env f date key T dest nel store =
     (case LoadDBarray env f date key T (vector_at store dest) of
        (st, vec) \<Rightarrow>
          (if st = 0 \<and> nel > 0 \<and> nel \<noteq> length vec then - 130 else st,
           store(dest \<mapsto> Vector vec)))"

definition load_and_assign_matrix ::
  "'f env \<Rightarrow> FILE \<Rightarrow> TDatime \<Rightarrow> string \<Rightarrow> ctype \<Rightarrow> nat \<Rightarrow> nat \<Rightarrow> 'f store
     \<Rightarrow> fault + int \<times> 'f store" where
  "load_and_assign_matrix env f date key T dest nel store =
     (case LoadDBmatrix env f date key T (matrix_at store dest) nel of
        Inl flt \<Rightarrow> Inl flt
      | Inr (st, mat) \<Rightarrow> Inr (st, store(dest \<mapsto> Matrix mat)))"

text \<open>The \<^verbatim>\<open>switch( item->type )\<close> of \<^verbatim>\<open>LoadDatabase\<close>.\<close>

definition load_item ::
  "'f env \<Rightarrow> FILE \<Rightarrow> TDatime \<Rightarrow> string \<Rightarrow> DBRequest \<Rightarrow> nat \<Rightarrow> 'f store
     \<Rightarrow> fault + int \<times> 'f store" where
  "load_item env f date key item dest store =
     (case type item of
        kDouble \<Rightarrow> load_and_assign env f date key Double_t dest (nelem item) store
      | kFloat \<Rightarrow> load_and_assign env f date key Float_t dest (nelem item) store
      | kLong \<Rightarrow> load_and_assign env f date key Long64_t dest (nelem item) store
      | kULong \<Rightarrow> load_and_assign env f date key ULong64_t dest (nelem item) store
      | kInt \<Rightarrow> load_and_assign env f date key Int_t dest (nelem item) store
      | kUInt \<Rightarrow> load_and_assign env f date key UInt_t dest (nelem item) store
      | kShort \<Rightarrow> load_and_assign env f date key Short_t dest (nelem item) store
      | kUShort \<Rightarrow> load_and_assign env f date key UShort_t dest (nelem item) store
      | kChar \<Rightarrow> load_and_assign env f date key Char_t dest (nelem item) store
      | kByte \<Rightarrow> load_and_assign env f date key Byte_t dest (nelem item) store
      | kString \<Rightarrow>
          (case LoadDBvalue env f date key (string_at store dest) of
             (st, v) \<Rightarrow> Inr (st, store(dest \<mapsto> String v)))
      | kTString \<Rightarrow>
          (case LoadDBvalue env f date key [] of
             (st, v) \<Rightarrow> Inr (st, if st = 0 then store(dest \<mapsto> TString v) else store))
      | kFloatV \<Rightarrow> Inr (load_and_assign_vector env f date key Float_t dest (nelem item) store)
      | kDoubleV \<Rightarrow> Inr (load_and_assign_vector env f date key Double_t dest (nelem item) store)
      | kIntV \<Rightarrow> Inr (load_and_assign_vector env f date key Int_t dest (nelem item) store)
      | kFloatM \<Rightarrow> load_and_assign_matrix env f date key Float_t dest (nelem item) store
      | kDoubleM \<Rightarrow> load_and_assign_matrix env f date key Double_t dest (nelem item) store
      | kIntM \<Rightarrow> load_and_assign_matrix env f date key Int_t dest (nelem item) store
      | kOther \<Rightarrow> Inr (- 2, store))"

subsection \<open>ChopPrefix\<close>

definition kMaxInt :: int where "kMaxInt = 2147483647"

text \<open>\<^verbatim>\<open>string::rfind(c, from)\<close>: the last index \<open>\<le> from\<close> that holds \<open>c\<close>.\<close>

definition rfind :: "string \<Rightarrow> char \<Rightarrow> nat \<Rightarrow> nat option" where
  "rfind s c from =
     (let t = take (Suc from) s in
      if c \<in> set t then Some (length t - 1 - length (takeWhile (\<lambda>x. x \<noteq> c) (rev t))) else None)"

text \<open>The result is the new value of the reference parameter \<open>s\<close> and the returned count.\<close>

definition ChopPrefix :: "string \<Rightarrow> string \<times> int" where
  "ChopPrefix s =
     (let len = length s in
      if len \<ge> 2 then
        (case rfind s (CHR ''.'') (len - 2) of
           Some p \<Rightarrow>
             (let s' = take (p + 1) s; ndot = int (count_list s' (CHR ''.''))
              in if ndot \<le> kMaxInt then (s', ndot) else ([], 0))
         | None \<Rightarrow> ([], 0))
      else ([], 0))"

lemma rfind_le: "rfind s c from = Some p \<Longrightarrow> p \<le> from"
  by (auto simp: rfind_def Let_def split: if_splits)

lemma ChopPrefix_shorter:
  assumes "s \<noteq> []"
  shows "length (fst (ChopPrefix s)) < length s"
proof (cases "2 \<le> length s")
  case False
  with assms show ?thesis by (simp add: ChopPrefix_def)
next
  case True
  show ?thesis
  proof (cases "rfind s (CHR ''.'') (length s - 2)")
    case None
    with assms show ?thesis by (simp add: ChopPrefix_def Let_def)
  next
    case (Some p)
    from rfind_le [OF Some] True have "p + 1 < length s" by simp
    with Some True assms show ?thesis
      by (simp add: ChopPrefix_def Let_def)
  qed
qed

text \<open>The \<^verbatim>\<open>while( item->name )\<close> loop of \<^verbatim>\<open>LoadDatabase\<close>, at item \<open>req ! i\<close> with the
  current \<open>ret\<close>; \<open>search0\<close> is the parameter \<^verbatim>\<open>search\<close>.  \<^verbatim>\<open>goto nextitem\<close> is the
  call at \<open>i + 1\<close>, \<^verbatim>\<open>break\<close> returns, and the recursive \<^verbatim>\<open>LoadDatabase\<close> on the
  one-item array \<^verbatim>\<open>newreq\<close> is the call at index \<open>0\<close> with \<open>ret = 0\<close>.  Every negative
  status writes its message and breaks.\<close>

function LoadDatabase_loop ::
  "'f env \<Rightarrow> FILE \<Rightarrow> TDatime \<Rightarrow> DBRequest list \<Rightarrow> nat \<Rightarrow> string \<Rightarrow> int \<Rightarrow> int \<Rightarrow> 'f store
     \<Rightarrow> fault + int \<times> 'f store" where
  "LoadDatabase_loop env f date req i prefix search0 ret store =
     (if i \<ge> length req then Inr (ret, store)
      else
        (let item = req ! i in
         case var item of
           None \<Rightarrow> LoadDatabase_loop env f date req (i + 1) prefix search0 ret store
         | Some dest \<Rightarrow>
             (case load_item env f date (prefix @ name item) item dest store of
                Inl flt \<Rightarrow> Inl flt
              | Inr (ret1, store1) \<Rightarrow>
                  if ret1 = 0 then LoadDatabase_loop env f date req (i + 1) prefix search0 ret1 store1
                  else if ret1 > 0 then
                    (let newsearch = (if search item \<noteq> 0 then search item else search0);
                         newprefix = fst (ChopPrefix prefix);
                         newlevel = snd (ChopPrefix prefix) + 1
                     in if newsearch \<noteq> 0 \<and> prefix \<noteq> [] \<and> (newsearch < 0 \<or> newlevel \<ge> newsearch) then
                          (case LoadDatabase_loop env f date [item\<lparr>search := 0\<rparr>] 0 newprefix
                                  (if newsearch < 0 then newsearch + 1 else newsearch) 0 store1 of
                             Inl flt \<Rightarrow> Inl flt
                           | Inr (ret2, store2) \<Rightarrow>
                               if ret2 \<noteq> 0 then Inr (ret2, store2)
                               else LoadDatabase_loop env f date req (i + 1) prefix search0 ret2 store2)
                        else if optional item then
                          LoadDatabase_loop env f date req (i + 1) prefix search0 0 store1
                        else Inr (1 + int i, store1))
                  else Inr (ret1, store1))))"
  by pat_completeness auto
termination
  apply (relation "measures [\<lambda>(env, f, date, req, i, prefix, search0, ret, store). length prefix,
                           \<lambda>(env, f, date, req, i, prefix, search0, ret, store). length req - i]")
  apply (auto simp: ChopPrefix_shorter)
  done

declare LoadDatabase_loop.simps [simp del]

definition LoadDatabase ::
  "'f env \<Rightarrow> FILE \<Rightarrow> TDatime \<Rightarrow> DBRequest list \<Rightarrow> string \<Rightarrow> int \<Rightarrow> 'f store
     \<Rightarrow> fault + int \<times> 'f store" where
  "LoadDatabase env f date req prefix search0 store =
     LoadDatabase_loop env f date req 0 prefix search0 0 store"

subsection \<open>GetDBFileList\<close>

text \<open>What \<^verbatim>\<open>gSystem\<close> answers: the value of the environment variable \<^verbatim>\<open>DB_DIR\<close>
  (\<open>None\<close> when unset), and for a directory name the entries \<^verbatim>\<open>GetDirEntry\<close> lists,
  in its order (\<open>None\<close> when \<^verbatim>\<open>OpenDirectory\<close> returns null).\<close>

record fsys =
  Getenv_DB_DIR :: "string option"
  OpenDirectory :: "string \<Rightarrow> string list option"

datatype abort = AssertionFailed

text \<open>The loop that opens the first directory of the search list that can be opened.\<close>

fun first_open :: "fsys \<Rightarrow> string list \<Rightarrow> (string \<times> string list) option" where
  "first_open sys [] = None"
| "first_open sys (d # ds) =
     (case OpenDirectory sys d of Some es \<Rightarrow> Some (d, es) | None \<Rightarrow> first_open sys ds)"

text \<open>\<^verbatim>\<open>atoi\<close>.\<close>

definition atoi :: "string \<Rightarrow> int" where
  "atoi s = fst (strtoll s)"

text \<open>The loop over the sorted date directories, at iterator position \<open>k\<close>; the result is
  the directory \<open>*it\<close> when \<open>found\<close> is set.\<close>

function select_dir :: "string list \<Rightarrow> int \<Rightarrow> nat \<Rightarrow> string option" where
  "select_dir time_dirs date k =
     (if k \<ge> length time_dirs then None
      else
        (let item_date = atoi (time_dirs ! k) in
         if k = 0 \<and> date < item_date then None
         else if k \<noteq> 0 \<and> date < item_date then Some (time_dirs ! (k - 1))
         else if k + 1 = length time_dirs \<and> date \<ge> item_date then Some (time_dirs ! k)
         else select_dir time_dirs date (k + 1)))"
  by pat_completeness auto
termination
  by (relation "measure (\<lambda>(time_dirs, date, k). length time_dirs - k)") auto

declare select_dir.simps [simp del]

text \<open>The file name \<^verbatim>\<open>db_<name>.dat\<close> made of \<open>name\<close>.\<close>

definition add_prefix :: "string \<Rightarrow> string" where
  "add_prefix filename = (if take 3 filename \<noteq> ''db_'' then ''db_'' @ filename else filename)"

definition add_suffix :: "string \<Rightarrow> string" where
  "add_suffix filename =
     (if last filename = CHR ''.'' then filename @ ''dat''
      else if drop (length filename - 4) filename \<noteq> ''.dat'' then filename @ ''.dat''
      else filename)"

text \<open>The search list of directories (\<^verbatim>\<open>dnames\<close>), and \<^verbatim>\<open>GetDBFileList\<close>, where \<open>nm\<close> is
  the parameter \<^verbatim>\<open>name\<close> and \<open>ndebug\<close> says whether \<^verbatim>\<open>NDEBUG\<close> is defined: the length
  check on the file name is an \<^verbatim>\<open>assert\<close> without it and an early return of the empty
  list with it.\<close>

definition dnames :: "fsys \<Rightarrow> string list" where
  "dnames sys = (case Getenv_DB_DIR sys of Some dbdir \<Rightarrow> [dbdir] | None \<Rightarrow> []) @ [''DB'', ''db'', ''.'']"

definition GetDBFileList :: "fsys \<Rightarrow> bool \<Rightarrow> string \<Rightarrow> TDatime \<Rightarrow> abort + string list" where
  "GetDBFileList sys ndebug nm date =
     (if nm = [] then Inr []
      else if CHR ''/'' \<in> set nm then Inr [nm]
      else
        (case first_open sys (dnames sys) of
           None \<Rightarrow> Inr []
         | Some (thedir, entries) \<Rightarrow>
             (let time_dirs = filter (\<lambda>item. length item = 8 \<and> list_all isdigit item) entries;
                  have_defaultdir = (\<exists>item \<in> set entries. length item \<noteq> 8 \<and> item = ''DEFAULT'');
                  found = (if time_dirs \<noteq> [] then select_dir (sort time_dirs) (GetDate date) 0
                           else None);
                  filename = add_prefix nm
              in if length filename < 4 then (if ndebug then Inr [] else Inl AssertionFailed)
                 else
                   (let filename' = add_suffix filename
                    in Inr ([filename']
                            @ (case found of Some d \<Rightarrow> [thedir @ ''/'' @ d @ ''/'' @ filename']
                               | None \<Rightarrow> [])
                            @ (if have_defaultdir then [thedir @ ''/'' @ ''DEFAULT'' @ ''/'' @ filename']
                               else [])
                            @ [thedir @ ''/'' @ filename'])))))"

subsection \<open>A concrete environment\<close>

text \<open>For runs on concrete inputs: a stream on a given text; a C library whose
  \<^verbatim>\<open>strptime\<close> takes only the canonical stamp \<^verbatim>\<open>yyyy-mm-dd hh:mi:ss\<close> between optional
  white space (a real \<^verbatim>\<open>strptime\<close> takes more, such as one-digit fields; on the canonical
  stamps of the runs below it gives the same fields), takes no stamp with a zone and
  never sets \<^verbatim>\<open>errno\<close>; no text variables; and no floating-point parser, which the runs
  below never reach.\<close>

definition open_text :: "string \<Rightarrow> FILE" where
  "open_text s = \<lparr>content = s, pos = 0\<rparr>"

definition num_at :: "string \<Rightarrow> nat \<Rightarrow> nat \<Rightarrow> nat option" where
  "num_at s i n = (let ds = take n (drop i s) in
                    if length ds = n \<and> list_all isdigit ds then Some (digits_val ds) else None)"

definition strptime_plain :: "string \<Rightarrow> tm option" where
  "strptime_plain ts =
     (let s = dropWhile isspace ts in
      case (num_at s 0 4, num_at s 5 2, num_at s 8 2, num_at s 11 2, num_at s 14 2, num_at s 17 2) of
        (Some y, Some mo, Some d, Some h, Some mi, Some se) \<Rightarrow>
          if s ! 4 = CHR ''-'' \<and> s ! 7 = CHR ''-'' \<and> isspace (s ! 10) \<and> s ! 13 = CHR '':''
             \<and> s ! 16 = CHR '':'' \<and> list_all isspace (drop 19 s)
             \<and> 1 \<le> mo \<and> mo \<le> 12 \<and> 1 \<le> d \<and> d \<le> 31 \<and> h \<le> 23 \<and> mi \<le> 59 \<and> se \<le> 61
          then Some \<lparr>tm_year = int y - 1900, tm_mon = int mo - 1, tm_mday = int d,
                      tm_hour = int h, tm_min = int mi, tm_sec = int se\<rparr>
          else None
      | _ \<Rightarrow> None)"

definition libc_plain :: "unit env" where
  "libc_plain = \<lparr>Substitute = None, strptime_tz = (\<lambda>_. (None, 0)),
     strptime_notz = (\<lambda>ts. (strptime_plain ts, 0)),
     to_localtime = (\<lambda>tmc. (Some tmc, 0)), strtofp = (\<lambda>_ _. ((), 0, False)), fp_le = (\<lambda>_ _. True),
     fp_max = (\<lambda>_. ()), fp_neg = (\<lambda>_. ()), fp_zero = ()\<rparr>"

text \<open>Two file systems: one whose directory \<^verbatim>\<open>DB\<close> holds two date directories and
  \<^verbatim>\<open>DEFAULT\<close>, and one where only the current directory can be opened.\<close>

definition dated_dirs :: fsys where
  "dated_dirs = \<lparr>Getenv_DB_DIR = None,
     OpenDirectory = (\<lambda>d. if d = ''DB''
        then Some [''.'', ''..'', ''20100101'', ''DEFAULT'', ''20000101'', ''abcdefgh''] else None)\<rparr>"

definition only_cwd :: fsys where
  "only_cwd = \<lparr>Getenv_DB_DIR = None, OpenDirectory = (\<lambda>d. if d = ''.'' then Some [''.'', ''..''] else None)\<rparr>"

text \<open>A request item for an \<^verbatim>\<open>Int_t\<close> scalar.\<close>

definition int_item :: "string \<Rightarrow> nat \<Rightarrow> int \<Rightarrow> bool \<Rightarrow> DBRequest" where
  "int_item nm d s opt =
     \<lparr>name = nm, var = Some d, type = kInt, nelem = 0, optional = opt, search = s, descript = None\<rparr>"

subsection \<open>The claims' own notions\<close>

text \<open>Row-major reshaping as the specification describes it: row \<open>r\<close> of an
  \<open>nrows \<times> ncols\<close> matrix holds the elements \<open>r * ncols, \<dots>, r * ncols + ncols - 1\<close>.\<close>

definition row_major :: "nat \<Rightarrow> 'a list \<Rightarrow> 'a list list" where
  "row_major ncols xs = map (\<lambda>r. take ncols (drop (r * ncols) xs)) [0..<length xs div ncols]"

text \<open>Scalar integer conversion as the specification states it: the text is white space, an optional sign and
  decimal digits of a value within the range of \<open>T\<close>, followed by nothing but white space.\<close>

definition whole_integer :: "ctype \<Rightarrow> string \<Rightarrow> bool" where
  "whole_integer T s =
     (case strto_scan s of
        None \<Rightarrow> False
      | Some (neg, m, e) \<Rightarrow>
          list_all isspace (drop e s)
          \<and> numeric_min T \<le> (if neg then - int m else int m)
          \<and> (if neg then - int m else int m) \<le> numeric_max T)"

text \<open>What the conversion takes: only the byte that follows the digits is looked at.
  \<open>has_minus\<close> says that the digits are preceded by a minus sign.\<close>

definition accepted_integer :: "ctype \<Rightarrow> string \<Rightarrow> int option" where
  "accepted_integer T s =
     (case strto_scan s of
        None \<Rightarrow> None
      | Some (neg, m, e) \<Rightarrow>
          (let v = (if neg then - int m else int m) in
           if (e = length s \<or> isspace (s ! e)) \<and> numeric_min T \<le> v \<and> v \<le> numeric_max T
           then Some v else None))"

definition has_minus :: "string \<Rightarrow> bool" where
  "has_minus s = (case strto_scan s of None \<Rightarrow> False | Some (neg, m, e) \<Rightarrow> neg)"




text \<open>The prefix as the specification views it: a chain of dotted components, each
  ending with its dot (a last one may lack it).  \<open>chop\<close> removes the last component,
  \<open>dots\<close> counts the dots, and the level of a prefix is \<open>dots + 1\<close>, so that the empty
  prefix is at level 1.\<close>

fun components :: "string \<Rightarrow> string list" where
  "components [] = []"
| "components (c # cs) =
     (if c = CHR ''.'' then [c] # components cs
      else (case components cs of [] \<Rightarrow> [[c]] | x # xs \<Rightarrow> (c # x) # xs))"

definition chop :: "string \<Rightarrow> string" where
  "chop prefix = concat (butlast (components prefix))"

definition dots :: "string \<Rightarrow> nat" where
  "dots prefix = count_list prefix (CHR ''.'')"

lemma concat_components: "concat (components s) = s"
  by (induction s) (auto split: list.splits)

lemma components_Nil: "(components s = []) = (s = [])"
  by (cases s) (auto split: list.splits)

lemma components_nonempty: "x \<in> set (components s) \<Longrightarrow> x \<noteq> []"
  by (induction s arbitrary: x) (auto split: if_splits list.splits)

lemma chop_shorter:
  assumes "s \<noteq> []"
  shows "length (chop s) < length s"
proof -
  from assms have ne: "components s \<noteq> []" by (simp add: components_Nil)
  then have "last (components s) \<noteq> []" using components_nonempty [of "last (components s)" s] by simp
  moreover have "s = concat (butlast (components s) @ [last (components s)])"
    using ne by (simp add: concat_components)
  then have "length s = length (chop s) + length (last (components s))"
    unfolding chop_def by (metis concat_append concat.simps append_Nil2 length_append)
  ultimately show ?thesis by simp
qed

text \<open>The prefixes at which the request loader looks a key up, in order, as the
  specification describes the search: first the prefix itself; then, while the effective
  search level \<open>s\<close> is not zero and the prefix is not empty, the chopped prefix, provided
  \<open>s\<close> is negative (it then moves one step towards zero) or the level of the chopped
  prefix is at least \<open>s\<close>.\<close>

definition ascends :: "string \<Rightarrow> int \<Rightarrow> bool" where
  "ascends prefix s = (s \<noteq> 0 \<and> prefix \<noteq> [] \<and> (s < 0 \<or> int (dots (chop prefix)) + 1 \<ge> s))"

function search_chain :: "string \<Rightarrow> int \<Rightarrow> string list" where
  "search_chain prefix s =
     prefix # (if ascends prefix s
               then search_chain (chop prefix) (if s < 0 then s + 1 else s)
               else [])"
  by pat_completeness auto
termination
  by (relation "measure (\<lambda>(prefix, s). length prefix)") (auto simp: chop_shorter ascends_def)

declare search_chain.simps [simp del]

text \<open>The outcome of looking one item up along a list of prefixes: the first prefix at
  which the typed load does not answer "not found" decides; when every prefix answers
  "not found" the item is missing.\<close>

fun resolve ::
  "'f env \<Rightarrow> FILE \<Rightarrow> TDatime \<Rightarrow> DBRequest \<Rightarrow> nat \<Rightarrow> string list \<Rightarrow> 'f store \<Rightarrow> fault + int \<times> 'f store" where
  "resolve env f date item dest [] store = Inr (if optional item then 0 else 1, store)"
| "resolve env f date item dest (p # ps) store =
     (case load_item env f date (p @ name item) item dest store of
        Inl flt \<Rightarrow> Inl flt
      | Inr (ret, store1) \<Rightarrow>
          if ret > 0 then resolve env f date item dest ps store1 else Inr (ret, store1))"

text \<open>The file of the specification's scenario "latest stamp wins", and the same with an
  empty line before the second stamp.\<close>

definition stamped_text :: string where
  "stamped_text = ''[ 2000-01-01 00:00:00 ]'' @ [NL] @ ''x = 1'' @ [NL]
                  @ ''[ 2010-06-15 12:00:00 ]'' @ [NL] @ ''x = 2''"

definition spaced_text :: string where
  "spaced_text = ''[ 2000-01-01 00:00:00 ]'' @ [NL] @ ''x = 1'' @ [NL] @ [NL]
                 @ ''[ 2010-06-15 12:00:00 ]'' @ [NL] @ ''x = 2''"

section \<open>Properties\<close>

subsection \<open>Running the functions on concrete inputs\<close>

lemmas char_defs = isspace_def isdigit_def NUL_def TAB_def NL_def SPC_def BSL_def

lemmas reader_defs = GetLine_def GetLine_loop.simps fgets_def strchr_def tab_to_space_def
  prepare_line_def Trim_def IsAssignment_def ReadDBline_def ReadDBline_loop.simps fsetpos_def
  rewind_def EOF_def Let_def open_text_def bufsiz_def

lemmas scan_defs = LoadDBvalue_def LoadDBvalue_loop.simps scan_init_def scan_line_def scan_date_def
  IsDBkey_def IsDBdate_def strncmp_eq_def libc_plain_def size_sub_def find_from_def
  sentinel_def TDatime_Set_def strptime_plain_def num_at_def digits_val_def digit_val_def
  set_errno_def

lemmas conv_defs = LoadDBvalue_num_def LoadDBarray_def LoadDBarray_loop.simps LoadDBmatrix_def
  convert_string_def conversion_failed_def conversion_error_def is_in_range_def static_cast_def
  strtoll_def strtoull_def strto_scan_def numeric_min_def numeric_max_def
  LLONG_MAX_def LLONG_MIN_def ULLONG_MAX_def

lemmas load_defs = LoadDatabase_def LoadDatabase_loop.simps load_item_def load_and_assign_def
  load_and_assign_vector_def load_and_assign_matrix_def vector_at_def matrix_at_def string_at_def
  ChopPrefix_def rfind_def kMaxInt_def int_item_def

lemmas path_defs = GetDBFileList_def dnames_def add_prefix_def add_suffix_def
  select_dir.simps atoi_def GetDate_def

subsection \<open>The line reader\<close>










subsection \<open>The value resolver\<close>

text \<open>C1.  The specification has the value resolver return the assignment under the
  greatest stamp not after the requested date, and the comment of \<^verbatim>\<open>LoadDBvalue\<close> says
  that values with time stamps later than the date are ignored.  In the file of the
  specification's scenario "latest stamp wins" the stamp of 2010 directly follows the
  assignment \<^verbatim>\<open>x = 1\<close>: \<^verbatim>\<open>ReadDBline\<close> takes it as a continuation of that assignment, so
  the scan never sees it as a stamp, \<open>do_ignore\<close> stays unset, and for the date 2005-01-01
  the assignment \<^verbatim>\<open>x = 2\<close> under the stamp of 2010 is returned, where \<^verbatim>\<open>1\<close> is due.
  With an empty line before the second stamp the same request returns \<^verbatim>\<open>1\<close>.\<close>

theorem stamp_after_assignment_not_honoured:
  "LoadDBvalue libc_plain (open_text stamped_text) (TDatime_Set 0 2005 1 1 0 0 0) ''x'' [] = (0, ''2'')
   \<and> (case ReadDBline (open_text stamped_text) bufsiz of (r1, l1, f1) \<Rightarrow>
        case ReadDBline f1 bufsiz of (r2, l2, f2) \<Rightarrow>
        case ReadDBline f2 bufsiz of (r3, l3, f3) \<Rightarrow>
          [l1, l2, l3] = [''[ 2000-01-01 00:00:00 ]'', ''x = 1 [ 2010-06-15 12:00:00 ]'', ''x = 2'']
          \<and> fst (ReadDBline f3 bufsiz) = EOF)
   \<and> LoadDBvalue libc_plain (open_text spaced_text) (TDatime_Set 0 2005 1 1 0 0 0) ''x'' [] = (0, ''1'')"
  by (simp add: stamped_text_def spaced_text_def char_defs reader_defs scan_defs)

subsection \<open>The key matcher\<close>

text \<open>C4.  The specification has the key matcher report a match exactly when the
  trimmed left-hand side equals the key byte for byte.  \<^verbatim>\<open>IsDBkey\<close> compares only as
  many bytes as the left-hand side has (\<^verbatim>\<open>strncmp(ln, key, p - ln + 1)\<close>), so a left-hand
  side that is a proper prefix of the key matches as well: the line \<^verbatim>\<open>a = 1\<close> matches
  the key \<^verbatim>\<open>ab\<close> and yields the value \<^verbatim>\<open>1\<close>.\<close>

theorem IsDBkey_accepts_prefix:
  "IsDBkey ''a = 1'' ''ab'' [] = (1, ''1'')"
  by (simp add: IsDBkey_def strchr_def strncmp_eq_def char_defs)

subsection \<open>Scalar conversion\<close>

lemma static_cast_signed:
  assumes "is_integral T" "is_signed T" "numeric_min T \<le> v" "v \<le> numeric_max T"
  shows "static_cast T (IntVal v) = IntVal v"
  using assms by (cases T) (simp_all add: static_cast_def numeric_min_def numeric_max_def)

lemma static_cast_unsigned:
  assumes "is_integral T" "\<not> is_signed T" "0 \<le> v" "v \<le> numeric_max T"
  shows "static_cast T (IntVal v) = IntVal v"
  using assms by (cases T) (simp_all add: static_cast_def numeric_max_def)

lemma signed_limits:
  assumes "is_integral T" "is_signed T"
  shows "LLONG_MIN \<le> numeric_min T \<and> numeric_max T \<le> LLONG_MAX"
  using assms by (cases T) (simp_all add: numeric_min_def numeric_max_def LLONG_MIN_def LLONG_MAX_def)

lemma unsigned_limits:
  assumes "is_integral T" "\<not> is_signed T"
  shows "numeric_min T = 0 \<and> numeric_max T \<le> ULLONG_MAX"
  using assms by (cases T) (simp_all add: numeric_min_def numeric_max_def ULLONG_MAX_def)

lemma convert_signed:
  assumes T: "is_integral T" "is_signed T"
  shows "(if conversion_failed env T s (convert_string env T s) then None
          else Some (static_cast T (fst (convert_string env T s))))
         = map_option IntVal (accepted_integer T s)"
proof (cases "strto_scan s")
  case None
  with T show ?thesis
    by (simp add: convert_string_def strtoll_def conversion_failed_def accepted_integer_def)
next
  case (Some a)
  obtain neg m e where a: "a = (neg, m, e)" by (cases a)
  define v where "v = (if neg then - int m else int m)"
  from Some a have sc: "strto_scan s = Some (neg, m, e)" by simp
  from strto_scan_end [OF sc] have e: "0 < e" "e \<le> length s" by simp_all
  note lim = signed_limits [OF T]
  show ?thesis
  proof (cases "numeric_min T \<le> v \<and> v \<le> numeric_max T")
    case True
    with lim have "\<not> v > LLONG_MAX" "\<not> v < LLONG_MIN" by simp_all
    then have cs: "convert_string env T s = (IntVal v, e, False)"
      using T sc by (simp add: convert_string_def strtoll_def v_def Let_def)
    from True T have "is_in_range env T True (IntVal v)"
      by (simp add: is_in_range_def)
    with True T e cs sc show ?thesis
      by (auto simp: conversion_failed_def accepted_integer_def Let_def v_def [symmetric]
          static_cast_signed)
  next
    case False
    have "conversion_failed env T s (convert_string env T s)"
    proof (cases "v > LLONG_MAX \<or> v < LLONG_MIN")
      case True
      then have "snd (snd (convert_string env T s))"
        using T sc by (auto simp: convert_string_def strtoll_def v_def Let_def)
      then show ?thesis by (auto simp: conversion_failed_def split: prod.splits)
    next
      case inr: False
      then have cs: "convert_string env T s = (IntVal v, e, False)"
        using T sc by (simp add: convert_string_def strtoll_def v_def Let_def)
      from False T have "\<not> is_in_range env T True (IntVal v)"
        by (auto simp: is_in_range_def)
      with cs T show ?thesis by (simp add: conversion_failed_def)
    qed
    with False sc show ?thesis
      by (simp add: accepted_integer_def Let_def v_def [symmetric])
  qed
qed

lemma convert_unsigned:
  assumes T: "is_integral T" "\<not> is_signed T" and nm: "\<not> has_minus s"
  shows "(if conversion_failed env T s (convert_string env T s) then None
          else Some (static_cast T (fst (convert_string env T s))))
         = map_option IntVal (accepted_integer T s)"
proof (cases "strto_scan s")
  case None
  with T show ?thesis
    by (simp add: convert_string_def strtoull_def conversion_failed_def accepted_integer_def)
next
  case (Some a)
  obtain neg m e where a: "a = (neg, m, e)" by (cases a)
  from Some a nm have sc: "strto_scan s = Some (False, m, e)" by (simp add: has_minus_def)
  from strto_scan_end [OF sc] have e: "0 < e" "e \<le> length s" by simp_all
  note lim = unsigned_limits [OF T]
  show ?thesis
  proof (cases "int m \<le> numeric_max T")
    case True
    with lim have "\<not> int m > ULLONG_MAX" by simp
    then have cs: "convert_string env T s = (IntVal (int m), e, False)"
      using T sc by (simp add: convert_string_def strtoull_def)
    from True T have "is_in_range env T False (IntVal (int m))"
      by (simp add: is_in_range_def)
    with True T e cs sc lim show ?thesis
      by (auto simp: conversion_failed_def accepted_integer_def Let_def static_cast_unsigned)
  next
    case False
    have "conversion_failed env T s (convert_string env T s)"
    proof (cases "int m > ULLONG_MAX")
      case True
      then have "snd (snd (convert_string env T s))"
        using T sc by (auto simp: convert_string_def strtoull_def)
      then show ?thesis by (auto simp: conversion_failed_def split: prod.splits)
    next
      case inr: False
      then have cs: "convert_string env T s = (IntVal (int m), e, False)"
        using T sc by (simp add: convert_string_def strtoull_def)
      from False T have "\<not> is_in_range env T False (IntVal (int m))"
        by (auto simp: is_in_range_def)
      with cs T show ?thesis by (simp add: conversion_failed_def)
    qed
    with False sc show ?thesis
      by (simp add: accepted_integer_def Let_def)
  qed
qed

text \<open>C2.  The specification has a scalar integer conversion succeed exactly when the
  text is a whole integer within the range of the target, followed by nothing but white
  space.  \<^verbatim>\<open>LoadDBvalue<T>\<close> tests only the byte at \<^verbatim>\<open>end\<close>: for a signed target, and
  for an unsigned target when the text has no minus sign, the conversion succeeds exactly
  when the text is white space, an optional sign and digits of a value within the range of
  \<open>T\<close>, and the byte after the digits is the end of the text or white space; what follows
  that byte is not looked at.  The result is then that value, else \<open>-131\<close> and the
  destination as it was.  (A minus sign before an unsigned target is the subject of C3.)\<close>

theorem integer_conversion_accepts:
  assumes "LoadDBvalue env f date key [] = (0, s)"
    and "is_integral T" and "is_signed T \<or> \<not> has_minus s"
  shows "LoadDBvalue_num env f date key T v =
           (case accepted_integer T s of Some i \<Rightarrow> (0, IntVal i) | None \<Rightarrow> (- 131, v))"
proof -
  have "(if conversion_failed env T s (convert_string env T s) then None
          else Some (static_cast T (fst (convert_string env T s))))
         = map_option IntVal (accepted_integer T s)"
    using assms(2,3) convert_signed convert_unsigned by blast
  with assms(1) show ?thesis
    by (cases "accepted_integer T s")
       (auto simp: LoadDBvalue_num_def Let_def conversion_error_def split: if_splits)
qed

theorem integer_conversion_accepts_witness:
  "LoadDBvalue libc_plain (open_text ''x = 12 abc'') sentinel ''x'' [] = (0, ''12 abc'')
   \<and> is_integral Int_t \<and> is_signed Int_t
   \<and> LoadDBvalue_num libc_plain (open_text ''x = 12 abc'') sentinel ''x'' Int_t (IntVal 0) = (0, IntVal 12)"
proof -
  have h: "LoadDBvalue libc_plain (open_text ''x = 12 abc'') sentinel ''x'' [] = (0, ''12 abc'')"
    by (simp add: char_defs reader_defs scan_defs)
  have a: "accepted_integer Int_t ''12 abc'' = Some 12"
    by (simp add: accepted_integer_def strto_scan_def char_defs digits_val_def digit_val_def
        numeric_min_def numeric_max_def)
  from integer_conversion_accepts [OF h, of Int_t "IntVal 0"] a h show ?thesis by simp
qed

theorem trailing_text_accepted:
  "LoadDBvalue_num libc_plain (open_text ''x = 12 abc'') sentinel ''x'' Int_t (IntVal 0) = (0, IntVal 12)
   \<and> \<not> whole_integer Int_t ''12 abc''"
  by (simp add: char_defs reader_defs scan_defs conv_defs whole_integer_def)

text \<open>C3.  The specification has every unsigned target reject a negative source value.
  \<^verbatim>\<open>convert_string\<close> hands an unsigned target to \<^verbatim>\<open>strtoull\<close>, whose result type is
  unsigned, so the test \<^verbatim>\<open>val >= 0\<close> of \<^verbatim>\<open>is_in_range\<close> is never reached: \<^verbatim>\<open>-1\<close> is
  accepted for the 64-bit unsigned type as \<open>2^64 - 1\<close>, and \<^verbatim>\<open>-18446744073709551615\<close> is
  accepted for an 8-bit unsigned target as \<open>1\<close>.  The three examples of the claim for the
  8-bit unsigned type hold.\<close>

theorem unsigned_negative_accepted:
  "LoadDBvalue_num libc_plain (open_text ''x = -1'') sentinel ''x'' ULong64_t (IntVal 0)
     = (0, IntVal 18446744073709551615)
   \<and> LoadDBvalue_num libc_plain (open_text ''x = -18446744073709551615'') sentinel ''x'' Byte_t (IntVal 0)
     = (0, IntVal 1)
   \<and> LoadDBvalue_num libc_plain (open_text ''x = -1'') sentinel ''x'' Byte_t (IntVal 0)
     = (- 131, IntVal 0)
   \<and> LoadDBvalue_num libc_plain (open_text ''x = 256'') sentinel ''x'' Byte_t (IntVal 0)
     = (- 131, IntVal 0)
   \<and> LoadDBvalue_num libc_plain (open_text ''x = 255'') sentinel ''x'' Byte_t (IntVal 0)
     = (0, IntVal 255)"
  by (simp add: char_defs reader_defs scan_defs conv_defs)

subsection \<open>Matrix conversion\<close>

lemma at_in_range:
  assumes "i < ncols" and "irow < length xs div ncols"
  shows "i + irow * ncols < length (xs :: 'a list)"
proof -
  from assms(2) have "Suc irow \<le> length xs div ncols" by simp
  then have "Suc irow * ncols \<le> (length xs div ncols) * ncols" by (rule mult_le_mono1)
  also have "\<dots> \<le> length xs" by simp
  finally have "irow * ncols + ncols \<le> length xs" by simp
  with assms(1) show ?thesis by simp
qed

lemma matrix_row:
  assumes "irow < length xs div ncols"
  shows "map (\<lambda>i. xs ! (i + irow * ncols)) [0..<ncols] = take ncols (drop (irow * ncols) xs)"
proof (rule nth_equalityI)
  from at_in_range [OF _ assms, of 0] have "0 < ncols \<Longrightarrow> irow * ncols < length xs" by simp
  have "irow * ncols + ncols \<le> length xs"
  proof -
    from assms have "Suc irow \<le> length xs div ncols" by simp
    then have "Suc irow * ncols \<le> (length xs div ncols) * ncols" by (rule mult_le_mono1)
    also have "\<dots> \<le> length xs" by simp
    finally show ?thesis by simp
  qed
  then show len: "length (map (\<lambda>i. xs ! (i + irow * ncols)) [0..<ncols]) = length (take ncols (drop (irow * ncols) xs))"
    by simp
  fix i assume "i < length (map (\<lambda>i. xs ! (i + irow * ncols)) [0..<ncols])"
  then have i: "i < ncols" by simp
  with at_in_range [OF i assms] show "map (\<lambda>i. xs ! (i + irow * ncols)) [0..<ncols] ! i = take ncols (drop (irow * ncols) xs) ! i"
    by (simp add: add.commute)
qed

lemma matrix_rows:
  "map (\<lambda>irow. map (\<lambda>i. xs ! (i + irow * ncols)) [0..<ncols]) [0..<length xs div ncols] = row_major ncols xs"
  unfolding row_major_def by (rule map_cong) (auto simp: matrix_row)

lemma concat_rows: "concat (map (\<lambda>r. take n (drop (r * n) xs)) [0..<k]) = take (k * n) xs"
proof (induction k)
  case 0
  show ?case by simp
next
  case (Suc k)
  have "take (k * n) xs @ take n (drop (k * n) xs) = take (k * n + n) xs"
    by (simp add: take_add)
  with Suc show ?case by (simp add: add.commute)
qed

lemma concat_row_major: "ncols dvd length xs \<Longrightarrow> concat (row_major ncols xs) = xs"
  by (simp add: row_major_def concat_rows)

lemma length_row_major: "0 < ncols \<Longrightarrow> row \<in> set (row_major ncols xs) \<Longrightarrow> length row = ncols"
proof -
  assume n: "0 < ncols" and "row \<in> set (row_major ncols xs)"
  then obtain r where r: "r < length xs div ncols" and row: "row = take ncols (drop (r * ncols) xs)"
    by (auto simp: row_major_def)
  from at_in_range [of "ncols - 1" ncols r xs] n r have "ncols - 1 + r * ncols < length xs" by simp
  with n row show ?thesis by simp
qed

text \<open>C9.  With at least one column, matrix conversion reads the value as an array,
  returns the array's error if that fails, returns \<open>-129\<close> unless the number of elements
  is divisible by \<open>ncols\<close>, and otherwise yields the row-major reshaping: the rows
  concatenated give the array back, there are \<open>length div ncols\<close> of them and each has
  \<open>ncols\<close> elements.\<close>

theorem LoadDBmatrix_row_major:
  assumes "0 < ncols" and "LoadDBarray env f date key T [] = (err, tmpval)"
  shows "LoadDBmatrix env f date key T vals ncols =
           (if err \<noteq> 0 then Inr (err, vals)
            else if \<not> ncols dvd length tmpval then Inr (- 129, vals)
            else Inr (0, row_major ncols tmpval))
         \<and> (ncols dvd length tmpval \<longrightarrow>
              concat (row_major ncols tmpval) = tmpval
              \<and> length (row_major ncols tmpval) = length tmpval div ncols
              \<and> (\<forall>row \<in> set (row_major ncols tmpval). length row = ncols))"
proof (intro conjI impI ballI)
  from assms show "LoadDBmatrix env f date key T vals ncols =
           (if err \<noteq> 0 then Inr (err, vals)
            else if \<not> ncols dvd length tmpval then Inr (- 129, vals)
            else Inr (0, row_major ncols tmpval))"
    by (simp add: LoadDBmatrix_def Let_def matrix_rows dvd_eq_mod_eq_0)
next
  assume "ncols dvd length tmpval"
  then show "concat (row_major ncols tmpval) = tmpval" by (rule concat_row_major)
next
  show "length (row_major ncols tmpval) = length tmpval div ncols"
    by (simp add: row_major_def)
next
  fix row assume "row \<in> set (row_major ncols tmpval)"
  with assms(1) show "length row = ncols" by (rule length_row_major)
qed

theorem LoadDBmatrix_row_major_witness:
  "LoadDBmatrix libc_plain (open_text ''m = 1 2 3 4 5 6'') sentinel ''m'' Int_t [] 3
     = Inr (0, [[IntVal 1, IntVal 2, IntVal 3], [IntVal 4, IntVal 5, IntVal 6]])
   \<and> LoadDBmatrix libc_plain (open_text ''m = 1 2 3 4 5'') sentinel ''m'' Int_t [] 3 = Inr (- 129, [])"
proof -
  have a6: "LoadDBarray libc_plain (open_text ''m = 1 2 3 4 5 6'') sentinel ''m'' Int_t []
      = (0, [IntVal 1, IntVal 2, IntVal 3, IntVal 4, IntVal 5, IntVal 6])"
    by (simp add: char_defs reader_defs scan_defs conv_defs)
  have a5: "LoadDBarray libc_plain (open_text ''m = 1 2 3 4 5'') sentinel ''m'' Int_t []
      = (0, [IntVal 1, IntVal 2, IntVal 3, IntVal 4, IntVal 5])"
    by (simp add: char_defs reader_defs scan_defs conv_defs)
  have n: "0 < (3::nat)" by simp
  have u: "[0..<2] = [0, Suc 0]" by (simp add: upt_rec)
  have "(3::nat) dvd 6" by simp
  then have d6: "(3::nat) dvd length [IntVal 1, IntVal 2, IntVal 3, IntVal 4, IntVal 5, IntVal (6::int) :: unit num]"
    by (simp add: numeral_eq_Suc)
  have "\<not> (3::nat) dvd 5" by simp
  then have d5: "\<not> (3::nat) dvd length [IntVal 1, IntVal 2, IntVal 3, IntVal 4, IntVal (5::int) :: unit num]"
    by (simp add: numeral_eq_Suc)
  from LoadDBmatrix_row_major [OF n a6, of "[]"] d6
  have r6: "LoadDBmatrix libc_plain (open_text ''m = 1 2 3 4 5 6'') sentinel ''m'' Int_t [] 3
      = Inr (0, row_major 3 [IntVal 1, IntVal 2, IntVal 3, IntVal 4, IntVal 5, IntVal 6])"
    by presburger
  from LoadDBmatrix_row_major [OF n a5, of "[]"] d5
  have r5: "LoadDBmatrix libc_plain (open_text ''m = 1 2 3 4 5'') sentinel ''m'' Int_t [] 3 = Inr (- 129, [])"
    by presburger
  show ?thesis unfolding r6 r5 by (simp add: row_major_def u)
qed

text \<open>C10.  \<^verbatim>\<open>LoadDBmatrix\<close> evaluates \<^verbatim>\<open>tmpval.size() % ncols\<close> whenever the array was
  read, with no guard: with \<open>ncols = 0\<close> it divides by zero, also when called through
  \<^verbatim>\<open>load_and_assign_matrix\<close> with \<open>nelem = 0\<close>; with \<open>ncols \<ge> 1\<close> it never does.\<close>

theorem LoadDBmatrix_zero_columns:
  assumes "LoadDBarray env f date key T [] = (0, tmpval)"
  shows "LoadDBmatrix env f date key T vals 0 = Inl DivisionByZero
         \<and> load_and_assign_matrix env f date key T dest 0 store = Inl DivisionByZero
         \<and> (\<forall>ncols > 0. LoadDBmatrix env f date key T vals ncols \<noteq> Inl DivisionByZero)"
  using assms by (simp add: LoadDBmatrix_def load_and_assign_matrix_def)

theorem LoadDBmatrix_zero_columns_witness:
  "LoadDBmatrix libc_plain (open_text ''m = 1 2 3'') sentinel ''m'' Int_t [] 0 = Inl DivisionByZero
   \<and> LoadDatabase libc_plain (open_text ''m = 1 2 3'') sentinel
        [\<lparr>name = ''m'', var = Some 0, type = kIntM, nelem = 0, optional = False, search = 0,
          descript = None\<rparr>] [] 0 Map.empty = Inl DivisionByZero"
proof -
  have a: "LoadDBarray libc_plain (open_text ''m = 1 2 3'') sentinel ''m'' Int_t []
      = (0, [IntVal 1, IntVal 2, IntVal 3])"
    by (simp add: char_defs reader_defs scan_defs conv_defs)
  from LoadDBmatrix_zero_columns [OF a, of "[]" 0 Map.empty]
  show ?thesis by (simp add: load_defs)
qed

subsection \<open>The request loader\<close>

lemma load_item_search:
  "load_item env f date key (item\<lparr>search := s\<rparr>) dest store = load_item env f date key item dest store"
  by (cases "type item") (simp_all add: load_item_def)

lemma resolve_search:
  "resolve env f date (item\<lparr>search := s\<rparr>) dest ps store = resolve env f date item dest ps store"
  by (induction ps arbitrary: store) (simp_all add: load_item_search split: sum.splits)

lemma components_pieces:
  "x \<in> set (components s) \<Longrightarrow> CHR ''.'' \<notin> set (butlast x)"
proof (induction s arbitrary: x)
  case Nil
  then show ?case by simp
next
  case (Cons c cs)
  show ?case
  proof (cases "c = CHR ''.''")
    case True
    with Cons show ?thesis by auto
  next
    case False
    show ?thesis
    proof (cases "components cs")
      case Nil
      with False Cons.prems show ?thesis by simp
    next
      case (Cons y ys)
      with False Cons.prems have "x = c # y \<or> x \<in> set ys" by simp
      then show ?thesis
      proof
        assume x: "x = c # y"
        from Cons Cons.IH [of y] have "CHR ''.'' \<notin> set (butlast y)" by simp
        with x False show ?thesis by simp
      next
        assume "x \<in> set ys"
        with Cons Cons.IH [of x] show ?thesis by simp
      qed
    qed
  qed
qed

lemma components_dotted:
  "x \<in> set (butlast (components s)) \<Longrightarrow> last x = CHR ''.''"
proof (induction s arbitrary: x)
  case Nil
  then show ?case by simp
next
  case (Cons c cs)
  show ?case
  proof (cases "c = CHR ''.''")
    case True
    with Cons show ?thesis by (auto split: if_splits)
  next
    case False
    show ?thesis
    proof (cases "components cs")
      case Nil
      with False Cons.prems show ?thesis by simp
    next
      case (Cons y ys)
      from components_nonempty [of y cs] Cons have yne: "y \<noteq> []" by simp
      show ?thesis
      proof (cases "ys = []")
        case True
        with Cons False Cons.prems show ?thesis by simp
      next
        case ne: False
        with Cons False Cons.prems have "x = c # y \<or> x \<in> set (butlast ys)" by simp
        then show ?thesis
        proof
          assume x: "x = c # y"
          from Cons ne Cons.IH [of y] have "last y = CHR ''.''" by simp
          with x yne show ?thesis by simp
        next
          assume "x \<in> set (butlast ys)"
          with Cons ne Cons.IH [of x] show ?thesis by simp
        qed
      qed
    qed
  qed
qed

lemma components_concat:
  assumes "\<forall>x \<in> set xs. x \<noteq> [] \<and> CHR ''.'' \<notin> set (butlast x) \<and> last x = CHR ''.''"
  shows "components (concat xs) = xs \<and> count_list (concat xs) (CHR ''.'') = length xs"
  using assms
proof (induction xs)
  case Nil
  show ?case by simp
next
  case (Cons x xs)
  then have x: "x \<noteq> []" "CHR ''.'' \<notin> set (butlast x)" "last x = CHR ''.''" by simp_all
  from Cons have ih: "components (concat xs) = xs" "count_list (concat xs) (CHR ''.'') = length xs"
    by simp_all
  have piece: "CHR ''.'' \<notin> set y \<Longrightarrow> components (y @ CHR ''.'' # r) = (y @ [CHR ''.'']) # components r
                 \<and> count_list (y @ [CHR ''.'']) (CHR ''.'') = 1" for y r
    by (induction y) auto
  from x have "x = butlast x @ [CHR ''.'']" by (metis append_butlast_last_id)
  then obtain y where y: "x = y @ [CHR ''.'']" "CHR ''.'' \<notin> set y" using x(2) by metis
  from piece [OF y(2), of "concat xs"] ih y(1) show ?case by simp
qed

lemma dotted_concat:
  assumes "\<forall>x \<in> set xs. x \<noteq> [] \<and> last x = c" and "xs \<noteq> []"
  shows "concat xs \<noteq> [] \<and> last (concat xs) = c"
  using assms by (induction xs rule: rev_induct) auto

lemma chop_dropWhile:
  "chop s = rev (dropWhile (\<lambda>x. x \<noteq> CHR ''.'') (rev (butlast s)))"
proof (cases "s = []")
  case True
  then show ?thesis by (simp add: chop_def)
next
  case False
  let ?cs = "components s" and ?P = "\<lambda>x. x \<noteq> CHR ''.''"
  let ?a = "concat (butlast ?cs)" and ?x = "last ?cs"
  from False have ne: "?cs \<noteq> []" by (simp add: components_Nil)
  then have "?x \<in> set ?cs" by simp
  from components_nonempty [OF this] components_pieces [OF this]
  have x: "?x \<noteq> []" "CHR ''.'' \<notin> set (butlast ?x)" by simp_all
  have "s = concat (butlast ?cs @ [?x])" using ne by (simp add: concat_components)
  then have s: "s = ?a @ ?x" by simp
  have "butlast s = butlast (?a @ ?x)" using s by simp
  also have "\<dots> = ?a @ butlast ?x" using x(1) by (simp add: butlast_append)
  finally have bl: "rev (butlast s) = rev (butlast ?x) @ rev ?a" by simp
  have d1: "dropWhile ?P (rev (butlast ?x) @ rev ?a) = dropWhile ?P (rev ?a)"
    using x(2) by (intro dropWhile_append2) auto
  have d2: "dropWhile ?P (rev ?a) = rev ?a"
  proof (cases "butlast ?cs = []")
    case True
    then show ?thesis by simp
  next
    case nb: False
    have "\<forall>y \<in> set (butlast ?cs). y \<noteq> [] \<and> last y = CHR ''.''"
      using components_nonempty components_dotted by (metis in_set_butlastD)
    from dotted_concat [OF this nb] have "?a \<noteq> []" "last ?a = CHR ''.''" by simp_all
    then have "rev ?a \<noteq> []" "hd (rev ?a) = CHR ''.''" by (simp_all add: hd_rev)
    then show ?thesis by (cases "rev ?a") simp_all
  qed
  show ?thesis unfolding bl d1 d2 by (simp add: chop_def)
qed

lemma components_chop:
  "components (chop s) = butlast (components s)
   \<and> dots (chop s) = length (components s) - 1"
proof -
  have "\<forall>x \<in> set (butlast (components s)).
          x \<noteq> [] \<and> CHR ''.'' \<notin> set (butlast x) \<and> last x = CHR ''.''"
    using components_nonempty components_pieces components_dotted by (metis in_set_butlastD)
  from components_concat [OF this] show ?thesis by (simp add: chop_def dots_def)
qed

lemma ChopPrefix_chop:
  assumes "int (length s) \<le> kMaxInt"
  shows "ChopPrefix s = (chop s, int (dots (chop s)))"
proof -
  let ?P = "\<lambda>x. x \<noteq> CHR ''.''" and ?t = "butlast s"
  show ?thesis
  proof (cases "2 \<le> length s \<and> CHR ''.'' \<in> set ?t")
    case False
    then have "dropWhile ?P (rev ?t) = []"
      by (cases "2 \<le> length s") (auto simp: butlast_conv_take)
    then have c: "chop s = []" by (simp add: chop_dropWhile)
    have "ChopPrefix s = ([], 0)"
    proof (cases "2 \<le> length s")
      case short: False
      then show ?thesis by (simp add: ChopPrefix_def)
    next
      case True
      then have "Suc (length s - 2) = length s - 1" by arith
      then have "take (Suc (length s - 2)) s = ?t" by (simp add: butlast_conv_take)
      with True False have "rfind s (CHR ''.'') (length s - 2) = None"
        by (simp add: rfind_def Let_def)
      then show ?thesis by (simp add: ChopPrefix_def Let_def)
    qed
    with c show ?thesis by (simp add: dots_def)
  next
    case True
    then have len: "2 \<le> length s" and dot: "CHR ''.'' \<in> set ?t" by simp_all
    from len have "Suc (length s - 2) = length s - 1" by arith
    then have t: "take (Suc (length s - 2)) s = ?t" by (simp add: butlast_conv_take)
    define k where "k = length (takeWhile ?P (rev ?t))"
    have k: "k < length ?t"
    proof -
      from dot have "dropWhile ?P (rev ?t) \<noteq> []" by (simp add: dropWhile_eq_Nil_conv)
      then have "0 < length (dropWhile ?P (rev ?t))" by simp
      moreover have "length (takeWhile ?P (rev ?t)) + length (dropWhile ?P (rev ?t)) = length (rev ?t)"
        by (metis length_append takeWhile_dropWhile_id)
      ultimately have "length (takeWhile ?P (rev ?t)) < length (rev ?t)" by linarith
      then show ?thesis by (simp add: k_def)
    qed
    have rf: "rfind s (CHR ''.'') (length s - 2) = Some (length ?t - 1 - k)"
      using dot by (simp add: rfind_def t k_def Let_def)
    have "rev (dropWhile ?P (rev ?t)) = rev (drop k (rev ?t))"
      by (simp add: k_def dropWhile_eq_drop)
    also have "\<dots> = take (length ?t - k) ?t" by (simp add: rev_drop)
    also have "\<dots> = take (length ?t - k) s" using k len by (simp add: take_butlast)
    finally have "chop s = take (length ?t - k) s" by (simp add: chop_dropWhile)
    moreover from k have "length ?t - k = length ?t - 1 - k + 1" by arith
    ultimately have c: "chop s = take (length ?t - 1 - k + 1) s" by simp
    have "length (chop s) \<le> length s" using chop_shorter [of s] len by (cases s) auto
    moreover have "count_list (chop s) (CHR ''.'') \<le> length (chop s)" by (rule count_le_length)
    ultimately have "int (count_list (chop s) (CHR ''.'')) \<le> kMaxInt" using assms by simp
    with len rf c show ?thesis by (simp add: ChopPrefix_def Let_def dots_def)
  qed
qed

lemma search_chain_stop: "\<not> ascends prefix s \<Longrightarrow> search_chain prefix s = [prefix]"
  by (subst search_chain.simps) simp

lemma search_chain_up:
  "ascends prefix s \<Longrightarrow>
     search_chain prefix s = prefix # search_chain (chop prefix) (if s < 0 then s + 1 else s)"
  by (subst search_chain.simps) simp

lemma search_chain_hd: "\<exists>t. search_chain prefix s = prefix # t"
  by (subst search_chain.simps) simp

lemma search_chain_steps:
  "Suc j < length (search_chain prefix s)
   \<Longrightarrow> search_chain prefix s ! Suc j = chop (search_chain prefix s ! j)"
proof (induction prefix s arbitrary: j rule: search_chain.induct)
  case (1 prefix s)
  show ?case
  proof (cases "ascends prefix s")
    case False
    with "1.prems" show ?thesis by (simp add: search_chain_stop)
  next
    case True
    let ?q = "chop prefix" and ?s = "if s < 0 then s + 1 else s"
    have chain: "search_chain prefix s = prefix # search_chain ?q ?s"
      using True by (rule search_chain_up)
    obtain t where hd: "search_chain ?q ?s = ?q # t" using search_chain_hd by blast
    show ?thesis
    proof (cases j)
      case 0
      with chain hd show ?thesis by simp
    next
      case (Suc k)
      with "1.prems" chain have "Suc k < length (search_chain ?q ?s)" by simp
      from "1.IH" [OF True this] chain Suc show ?thesis by simp
    qed
  qed
qed

lemma search_chain_length:
  "length (search_chain prefix s)
   = (if s < 0 then min (nat (- s)) (length (components prefix))
      else if 0 < s then length (components prefix) + 1 - nat s
      else 0) + 1"
proof (induction prefix s rule: search_chain.induct)
  case (1 prefix s)
  define n where "n = length (components prefix)"
  have d: "dots (chop prefix) = n - 1" and n': "length (components (chop prefix)) = n - 1"
    using components_chop [of prefix] by (simp_all add: n_def)
  have n0: "(n = 0) = (prefix = [])" by (simp add: n_def components_Nil)
  show ?case
    unfolding n_def [symmetric]
  proof (cases "ascends prefix s")
    case False
    then have "s = 0 \<or> prefix = [] \<or> (0 < s \<and> int (dots (chop prefix)) + 1 < s)"
      by (auto simp: ascends_def)
    then have "s = 0 \<or> n = 0 \<or> (0 < s \<and> int (n - 1) + 1 < s)"
      unfolding d n0 .
    then have "(if s < 0 then min (nat (- s)) n else if 0 < s then n + 1 - nat s else 0) = 0"
      by auto
    with False show "length (search_chain prefix s)
        = (if s < 0 then min (nat (- s)) n else if 0 < s then n + 1 - nat s else 0) + 1"
      by (simp add: search_chain_stop)
  next
    case True
    then have pne: "prefix \<noteq> []" and s0: "s \<noteq> 0"
      and cond: "s < 0 \<or> s \<le> int (dots (chop prefix)) + 1"
      by (auto simp: ascends_def)
    from pne n0 have ne: "1 \<le> n" by (cases n) simp_all
    from cond s0 ne have s: "s < 0 \<or> (0 < s \<and> s \<le> int n)" unfolding d by arith
    from s show "length (search_chain prefix s)
        = (if s < 0 then min (nat (- s)) n else if 0 < s then n + 1 - nat s else 0) + 1"
    proof
      assume neg: "s < 0"
      then have len: "length (search_chain prefix s) = length (search_chain (chop prefix) (s + 1)) + 1"
        using True by (simp add: search_chain_up)
      from "1.IH" [OF True] neg
      have ih: "length (search_chain (chop prefix) (s + 1))
            = (if s + 1 < 0 then min (nat (- (s + 1))) (n - 1) else 0) + 1"
        unfolding n' by simp
      from neg ne show ?thesis unfolding len ih by (simp add: min_def) arith
    next
      assume pos: "0 < s \<and> s \<le> int n"
      then have len: "length (search_chain prefix s) = length (search_chain (chop prefix) s) + 1"
        using True by (simp add: search_chain_up)
      from "1.IH" [OF True] pos
      have ih: "length (search_chain (chop prefix) s) = (n - 1 + 1 - nat s) + 1"
        unfolding n' by simp
      from pos ne show ?thesis unfolding len ih by simp arith
    qed
  qed
qed

lemma search_chain_levels:
  "0 < s \<Longrightarrow> p \<in> set (tl (search_chain prefix s)) \<Longrightarrow> s \<le> int (dots p) + 1"
proof (induction prefix s rule: search_chain.induct)
  case (1 prefix s)
  show ?case
  proof (cases "ascends prefix s")
    case False
    with "1.prems"(2) show ?thesis by (simp add: search_chain_stop)
  next
    case True
    let ?q = "chop prefix"
    from True "1.prems"(1) have lv: "s \<le> int (dots ?q) + 1"
      by (simp add: ascends_def)
    from True "1.prems" have mem: "p \<in> set (search_chain ?q s)"
      by (simp add: search_chain_up)
    obtain t where hd: "search_chain ?q s = ?q # t" using search_chain_hd by blast
    with mem have "p = ?q \<or> p \<in> set (tl (search_chain ?q s))" by auto
    then show ?thesis
    proof
      assume "p = ?q" with lv show ?thesis by simp
    next
      assume "p \<in> set (tl (search_chain ?q s))"
      with "1.IH" [OF True] "1.prems"(1) show ?thesis by simp
    qed
  qed
qed

lemma LoadDatabase_one_item:
  assumes "var item = Some dest"
    and "eff = (if search item \<noteq> 0 then search item else s0)"
    and "int (length prefix) \<le> kMaxInt"
  shows "LoadDatabase_loop env f date [item] 0 prefix s0 r0 store
         = resolve env f date item dest (search_chain prefix eff) store"
  using assms
proof (induction prefix eff arbitrary: item s0 r0 store rule: search_chain.induct)
  case (1 prefix s)
  let ?up = "ascends prefix s"
  let ?s' = "if s < 0 then s + 1 else s"
  note cp = ChopPrefix_chop [OF "1.prems"(3)]
  have done1: "LoadDatabase_loop env f date [item] (Suc 0) prefix s0 r st = Inr (r, st)" for r st
    by (subst LoadDatabase_loop.simps) simp
  show ?case
  proof (cases "load_item env f date (prefix @ name item) item dest store")
    case (Inl flt)
    obtain t where "search_chain prefix s = prefix # t" using search_chain_hd by blast
    with Inl "1.prems" show ?thesis
      by (subst LoadDatabase_loop.simps) simp
  next
    case (Inr a)
    obtain ret1 store1 where a: "a = (ret1, store1)" by (cases a)
    show ?thesis
    proof (cases "ret1 > 0")
      case False
      obtain t where "search_chain prefix s = prefix # t" using search_chain_hd by blast
      with False Inr a "1.prems" show ?thesis
        by (subst LoadDatabase_loop.simps) (auto simp: done1)
    next
      case pos: True
      show ?thesis
      proof (cases ?up)
        case False
        with pos Inr a "1.prems"(1,2) show ?thesis
          by (subst LoadDatabase_loop.simps)
             (auto simp: done1 Let_def search_chain_stop ascends_def cp)
      next
        case True
        have it': "var (item\<lparr>search := 0\<rparr>) = Some dest" using "1.prems"(1) by simp
        have eff': "?s' = (if search (item\<lparr>search := 0\<rparr>) \<noteq> 0 then search (item\<lparr>search := 0\<rparr>) else ?s')"
          by simp
        from True have pne: "prefix \<noteq> []" by (simp add: ascends_def)
        from chop_shorter [OF pne] "1.prems"(3) have len': "int (length (chop prefix)) \<le> kMaxInt"
          by simp
        have ih: "LoadDatabase_loop env f date [item\<lparr>search := 0\<rparr>] 0 (chop prefix) ?s' 0 store1
              = resolve env f date item dest (search_chain (chop prefix) ?s') store1"
          using "1.IH" [OF True it' eff' len'] by (simp add: resolve_search)
        have chain: "search_chain prefix s = prefix # search_chain (chop prefix) ?s'"
          using True by (rule search_chain_up)
        from True have s: "s \<noteq> 0" "s < 0 \<or> s \<le> int (dots (chop prefix)) + 1"
          by (simp_all add: ascends_def)
        have id: "(case x of Inl flt \<Rightarrow> Inl flt
                   | Inr (ret2, store2) \<Rightarrow> if ret2 \<noteq> 0 then Inr (ret2, store2)
                       else LoadDatabase_loop env f date [item] (0 + 1) prefix s0 ret2 store2) = x"
          for x :: "fault + int \<times> 'a store"
          by (cases x) (auto simp: done1)
        have "LoadDatabase_loop env f date [item] 0 prefix s0 r0 store
              = LoadDatabase_loop env f date [item\<lparr>search := 0\<rparr>] 0 (chop prefix) ?s' 0 store1"
          using pos Inr a "1.prems"(1,2) s pne
          by (subst LoadDatabase_loop.simps) (simp add: Let_def id cp)
        also note ih
        also have "resolve env f date item dest (search_chain (chop prefix) ?s') store1
              = resolve env f date item dest (prefix # search_chain (chop prefix) ?s') store"
          using pos Inr a by simp
        finally show ?thesis unfolding chain .
      qed
    qed
  qed
qed

lemma resolve_hit:
  assumes "load_item env f date (p @ name item) item dest store = Inr (ret1, store1)" and "\<not> 0 < ret1"
  shows "resolve env f date item dest (p # ps) store = Inr (ret1, store1)"
  using assms by simp

lemma resolve_miss:
  assumes "load_item env f date (p @ name item) item dest store = Inr (ret1, store1)" and "0 < ret1"
  shows "resolve env f date item dest (p # ps) store = resolve env f date item dest ps store1"
  using assms by simp

lemma LoadDatabase_loop_item:
  assumes i: "i < length req" and v: "var (req ! i) = Some dest"
    and len: "int (length prefix) \<le> kMaxInt"
  shows "LoadDatabase_loop env f date req i prefix s0 r0 store =
           (case resolve env f date (req ! i) dest
                   (search_chain prefix (if search (req ! i) \<noteq> 0 then search (req ! i) else s0)) store of
              Inl flt \<Rightarrow> Inl flt
            | Inr (ret, st) \<Rightarrow>
                if ret = 0 then LoadDatabase_loop env f date req (i + 1) prefix s0 0 st
                else Inr (if 0 < ret \<and> \<not> ascends prefix (if search (req ! i) \<noteq> 0 then search (req ! i) else s0)
                          then 1 + int i else ret, st))"
proof -
  define item where "item = req ! i"
  define s where "s = (if search item \<noteq> 0 then search item else s0)"
  let ?q = "chop prefix" and ?s' = "if s < 0 then s + 1 else s"
  note cp = ChopPrefix_chop [OF len]
  obtain t where hd: "search_chain prefix s = prefix # t" using search_chain_hd by blast
  have v': "var item = Some dest" using v by (simp add: item_def)
  show ?thesis
    unfolding item_def [symmetric] s_def [symmetric]
  proof (cases "load_item env f date (prefix @ name item) item dest store")
    case (Inl flt)
    with i v' show "LoadDatabase_loop env f date req i prefix s0 r0 store =
           (case resolve env f date item dest (search_chain prefix s) store of
              Inl flt \<Rightarrow> Inl flt
            | Inr (ret, st) \<Rightarrow>
                if ret = 0 then LoadDatabase_loop env f date req (i + 1) prefix s0 0 st
                else Inr (if 0 < ret \<and> \<not> ascends prefix s then 1 + int i else ret, st))"
      unfolding hd
      by (subst LoadDatabase_loop.simps) (simp add: item_def [symmetric])
  next
    case (Inr a)
    obtain ret1 store1 where a: "a = (ret1, store1)" by (cases a)
    from Inr a have li: "load_item env f date (prefix @ name item) item dest store = Inr (ret1, store1)"
      by simp
    show "LoadDatabase_loop env f date req i prefix s0 r0 store =
           (case resolve env f date item dest (search_chain prefix s) store of
              Inl flt \<Rightarrow> Inl flt
            | Inr (ret, st) \<Rightarrow>
                if ret = 0 then LoadDatabase_loop env f date req (i + 1) prefix s0 0 st
                else Inr (if 0 < ret \<and> \<not> ascends prefix s then 1 + int i else ret, st))"
    proof (cases "0 < ret1")
      case False
      have r: "resolve env f date item dest (search_chain prefix s) store = Inr (ret1, store1)"
        unfolding hd by (rule resolve_hit [OF li False])
      from False i v' li show ?thesis
        unfolding r
        by (subst LoadDatabase_loop.simps) (auto simp: item_def [symmetric])
    next
      case pos: True
      show ?thesis
      proof (cases "ascends prefix s")
        case False
        have r: "resolve env f date item dest (search_chain prefix s) store
                 = Inr (if optional item then 0 else 1, store1)"
          unfolding search_chain_stop [OF False] using resolve_miss [OF li pos, of "[]"] by simp
        from False pos i v' li show ?thesis
          unfolding r
          by (subst LoadDatabase_loop.simps)
             (auto simp: item_def [symmetric] s_def [symmetric] Let_def ascends_def cp)
      next
        case True
        have it': "var (item\<lparr>search := 0\<rparr>) = Some dest" using v' by simp
        have eff': "?s' = (if search (item\<lparr>search := 0\<rparr>) \<noteq> 0 then search (item\<lparr>search := 0\<rparr>) else ?s')"
          by simp
        from True have pne: "prefix \<noteq> []" by (simp add: ascends_def)
        from chop_shorter [OF pne] len have len': "int (length ?q) \<le> kMaxInt" by simp
        have rec: "LoadDatabase_loop env f date [item\<lparr>search := 0\<rparr>] 0 ?q ?s' 0 store1
              = resolve env f date item dest (search_chain ?q ?s') store1"
          using LoadDatabase_one_item [OF it' eff' len', of env f date 0 store1]
          by (simp only: resolve_search)
        have r: "resolve env f date item dest (search_chain prefix s) store
                 = resolve env f date item dest (search_chain ?q ?s') store1"
          unfolding search_chain_up [OF True] by (rule resolve_miss [OF li pos])
        from True have sc: "s \<noteq> 0" "s < 0 \<or> s \<le> int (dots (chop prefix)) + 1"
          by (simp_all add: ascends_def)
        have "LoadDatabase_loop env f date req i prefix s0 r0 store
              = (case LoadDatabase_loop env f date [item\<lparr>search := 0\<rparr>] 0 ?q ?s' 0 store1 of
                   Inl flt \<Rightarrow> Inl flt
                 | Inr (ret2, store2) \<Rightarrow>
                     if ret2 \<noteq> 0 then Inr (ret2, store2)
                     else LoadDatabase_loop env f date req (i + 1) prefix s0 ret2 store2)"
          using pos i v' li sc pne
          by (subst LoadDatabase_loop.simps)
             (simp add: item_def [symmetric] s_def [symmetric] Let_def cp)
        also have "\<dots> = (case resolve env f date item dest (search_chain ?q ?s') store1 of
              Inl flt \<Rightarrow> Inl flt
            | Inr (ret, st) \<Rightarrow>
                if ret = 0 then LoadDatabase_loop env f date req (i + 1) prefix s0 0 st
                else Inr (if 0 < ret \<and> \<not> ascends prefix s then 1 + int i else ret, st))"
          unfolding rec using True
          by (cases "resolve env f date item dest (search_chain ?q ?s') store1") auto
        finally show ?thesis unfolding r .
      qed
    qed
  qed
qed

text \<open>C5.  At an item of the request list that has a destination, \<^verbatim>\<open>LoadDatabase\<close>
  looks the key up along the chain of prefixes that the specification describes for the
  effective search level (the item's own level if not zero, else the global one): the
  first prefix that does not answer "not found" decides, and the item is missing when all
  do; after a status \<open>0\<close> the loop goes on with the next item.  \<^verbatim>\<open>ChopPrefix\<close> yields the
  prefix without its last component and the number of dots of the result.  The chain
  starts at the prefix, and each further prefix is the one before it without its last
  component.  For a prefix of \<open>n\<close> components, a negative level \<open>-k\<close> gives exactly
  \<open>min k n\<close> steps up, a positive level \<open>N\<close> gives \<open>n + 1 - N\<close> steps up (none when
  \<open>N > n\<close>), so that every prefix the search moves up to has a level (its dots + 1) of at
  least \<open>N\<close>, and level \<open>0\<close> gives none.  (Prefixes are shorter than \<open>2\<^sup>3\<^sup>1\<close> bytes.)\<close>

theorem search_up_chain:
  assumes "i < length req" and "var (req ! i) = Some dest" and "int (length prefix) \<le> kMaxInt"
  shows "let item = req ! i;
             eff = (if search item \<noteq> 0 then search item else s0);
             chain = search_chain prefix eff;
             n = length (components prefix)
         in LoadDatabase_loop env f date req i prefix s0 r0 store =
              (case resolve env f date item dest chain store of
                 Inl flt \<Rightarrow> Inl flt
               | Inr (ret, st) \<Rightarrow>
                   if ret = 0 then LoadDatabase_loop env f date req (i + 1) prefix s0 0 st
                   else Inr (if 0 < ret \<and> \<not> ascends prefix eff then 1 + int i else ret, st))
            \<and> ChopPrefix prefix = (chop prefix, int (dots (chop prefix)))
            \<and> chain ! 0 = prefix
            \<and> (\<forall>j. Suc j < length chain \<longrightarrow> chain ! Suc j = chop (chain ! j))
            \<and> (eff < 0 \<longrightarrow> length chain = min (nat (- eff)) n + 1)
            \<and> (0 < eff \<longrightarrow> length chain = (n + 1 - nat eff) + 1)
            \<and> (eff = 0 \<longrightarrow> length chain = 1)
            \<and> (0 < eff \<longrightarrow> (\<forall>p \<in> set (tl chain). eff \<le> int (dots p) + 1))"
  unfolding Let_def
proof (intro conjI impI ballI allI)
  show "LoadDatabase_loop env f date req i prefix s0 r0 store =
          (case resolve env f date (req ! i) dest
                  (search_chain prefix (if search (req ! i) \<noteq> 0 then search (req ! i) else s0)) store of
             Inl flt \<Rightarrow> Inl flt
           | Inr (ret, st) \<Rightarrow>
               if ret = 0 then LoadDatabase_loop env f date req (i + 1) prefix s0 0 st
               else Inr (if 0 < ret \<and> \<not> ascends prefix (if search (req ! i) \<noteq> 0 then search (req ! i) else s0)
                         then 1 + int i else ret, st))"
    by (rule LoadDatabase_loop_item [OF assms])
next
  show "ChopPrefix prefix = (chop prefix, int (dots (chop prefix)))"
    by (rule ChopPrefix_chop [OF assms(3)])
next
  let ?eff = "if search (req ! i) \<noteq> 0 then search (req ! i) else s0"
  obtain t where "search_chain prefix ?eff = prefix # t" using search_chain_hd by blast
  then show "search_chain prefix ?eff ! 0 = prefix" by simp
next
  let ?eff = "if search (req ! i) \<noteq> 0 then search (req ! i) else s0"
  fix j assume "Suc j < length (search_chain prefix ?eff)"
  then show "search_chain prefix ?eff ! Suc j = chop (search_chain prefix ?eff ! j)"
    by (rule search_chain_steps)
next
  let ?eff = "if search (req ! i) \<noteq> 0 then search (req ! i) else s0"
  assume "?eff < 0"
  then show "length (search_chain prefix ?eff) = min (nat (- ?eff)) (length (components prefix)) + 1"
    by (simp only: search_chain_length if_True)
next
  let ?eff = "if search (req ! i) \<noteq> 0 then search (req ! i) else s0"
  assume "0 < ?eff"
  then have "\<not> ?eff < 0" by simp
  with \<open>0 < ?eff\<close> show "length (search_chain prefix ?eff) = (length (components prefix) + 1 - nat ?eff) + 1"
    by (simp only: search_chain_length if_True if_False)
next
  let ?eff = "if search (req ! i) \<noteq> 0 then search (req ! i) else s0"
  assume "?eff = 0"
  then have "\<not> ?eff < 0" "\<not> 0 < ?eff" by simp_all
  then show "length (search_chain prefix ?eff) = 1"
    by (simp only: search_chain_length if_False)
next
  let ?eff = "if search (req ! i) \<noteq> 0 then search (req ! i) else s0"
  fix p assume "0 < ?eff" and "p \<in> set (tl (search_chain prefix ?eff))"
  then show "?eff \<le> int (dots p) + 1" by (rule search_chain_levels)
qed

theorem search_up_chain_witness:
  "0 < length [int_item ''nw'' 0 0 False] \<and> var ([int_item ''nw'' 0 0 False] ! 0) = Some 0
   \<and> int (length ''L.vdc.u1.'') \<le> kMaxInt
   \<and> ChopPrefix ''L.vdc.u1.'' = (''L.vdc.'', 2)
   \<and> search_chain ''L.vdc.u1.'' 1 = [''L.vdc.u1.'', ''L.vdc.'', ''L.'', []]
   \<and> search_chain ''L.vdc.u1.'' 2 = [''L.vdc.u1.'', ''L.vdc.'', ''L.'']
   \<and> search_chain ''L.vdc.u1.'' (- 1) = [''L.vdc.u1.'', ''L.vdc.'']
   \<and> map_sum id (\<lambda>(r, st). (r, st 0))
        (LoadDatabase libc_plain (open_text ''L.nw = 7'') sentinel [int_item ''nw'' 0 0 False]
           ''L.vdc.u1.'' 1 Map.empty) = Inr (0, Some (Scalar (IntVal 7)))
   \<and> map_sum id (\<lambda>(r, st). (r, st 0))
        (LoadDatabase libc_plain (open_text ''L.nw = 7'') sentinel [int_item ''nw'' 0 0 False]
           ''L.vdc.u1.'' 2 Map.empty) = Inr (0, Some (Scalar (IntVal 7)))
   \<and> map_sum id (\<lambda>(r, st). (r, st 0))
        (LoadDatabase libc_plain (open_text ''L.nw = 7'') sentinel [int_item ''nw'' 0 (- 1) False]
           ''L.vdc.u1.'' 0 Map.empty) = Inr (1, None)"
proof -
  have n: "0 < length [int_item nm 0 s False]" for nm s by simp
  have v: "var ([int_item nm 0 s False] ! 0) = Some 0" for nm s by (simp add: int_item_def)
  have len: "int (length ''L.vdc.u1.'') \<le> kMaxInt" by (simp add: kMaxInt_def)
  have ch: "chop ''L.vdc.u1.'' = ''L.vdc.''" "chop ''L.vdc.'' = ''L.''" "chop ''L.'' = []"
    "dots ''L.vdc.'' = 2" "dots ''L.'' = 1" "dots [] = 0"
    by (simp_all add: chop_def dots_def)
  have c1: "search_chain ''L.vdc.u1.'' 1 = [''L.vdc.u1.'', ''L.vdc.'', ''L.'', []]"
    by (simp add: search_chain.simps ascends_def ch)
  have c2: "search_chain ''L.vdc.u1.'' (- 1) = [''L.vdc.u1.'', ''L.vdc.'']"
    by (simp add: search_chain.simps ascends_def ch)
  have c3: "search_chain ''L.vdc.u1.'' 2 = [''L.vdc.u1.'', ''L.vdc.'', ''L.'']"
    by (simp add: search_chain.simps ascends_def ch)
  have s1: "(if search (int_item ''nw'' 0 0 False) \<noteq> 0
             then search (int_item ''nw'' 0 0 False) else 1) = 1"
    by (simp add: int_item_def)
  have s2: "(if search (int_item ''nw'' 0 (- 1) False) \<noteq> 0
             then search (int_item ''nw'' 0 (- 1) False) else 0) = - 1"
    by (simp add: int_item_def)
  have s3: "(if search (int_item ''nw'' 0 0 False) \<noteq> 0
             then search (int_item ''nw'' 0 0 False) else 2) = 2"
    by (simp add: int_item_def)
  have a2: "ascends ''L.vdc.u1.'' (- 1)"
    by (simp add: ascends_def)
  note t1 = search_up_chain [where i = 0 and req = "[int_item ''nw'' 0 0 False]" and dest = 0
      and prefix = "''L.vdc.u1.''" and ?s0.0 = 1 and env = libc_plain
      and f = "open_text ''L.nw = 7''" and date = sentinel and ?r0.0 = 0 and store = Map.empty,
      OF n v len, unfolded Let_def nth_Cons_0 s1 c1]
  note t2 = search_up_chain [where i = 0 and req = "[int_item ''nw'' 0 (- 1) False]" and dest = 0
      and prefix = "''L.vdc.u1.''" and ?s0.0 = 0 and env = libc_plain
      and f = "open_text ''L.nw = 7''" and date = sentinel and ?r0.0 = 0 and store = Map.empty,
      OF n v len, unfolded Let_def nth_Cons_0 s2 c2, THEN conjunct1]
  note t3 = search_up_chain [where i = 0 and req = "[int_item ''nw'' 0 0 False]" and dest = 0
      and prefix = "''L.vdc.u1.''" and ?s0.0 = 2 and env = libc_plain
      and f = "open_text ''L.nw = 7''" and date = sentinel and ?r0.0 = 0 and store = Map.empty,
      OF n v len, unfolded Let_def nth_Cons_0 s3 c3, THEN conjunct1]
  have cp: "ChopPrefix ''L.vdc.u1.'' = (''L.vdc.'', 2)"
    using t1 [THEN conjunct2, THEN conjunct1] by (simp add: ch)
  have e1: "resolve libc_plain (open_text ''L.nw = 7'') sentinel (int_item ''nw'' 0 0 False) 0
              [''L.vdc.u1.'', ''L.vdc.'', ''L.'', []] Map.empty
            = Inr (0, Map.empty(0 \<mapsto> Scalar (IntVal 7)))"
    by (simp add: char_defs reader_defs scan_defs conv_defs load_item_def load_and_assign_def
        int_item_def)
  have e3: "resolve libc_plain (open_text ''L.nw = 7'') sentinel (int_item ''nw'' 0 0 False) 0
              [''L.vdc.u1.'', ''L.vdc.'', ''L.''] Map.empty
            = Inr (0, Map.empty(0 \<mapsto> Scalar (IntVal 7)))"
    by (simp add: char_defs reader_defs scan_defs conv_defs load_item_def load_and_assign_def
        int_item_def)
  have e2: "resolve libc_plain (open_text ''L.nw = 7'') sentinel (int_item ''nw'' 0 (- 1) False) 0
              [''L.vdc.u1.'', ''L.vdc.''] Map.empty
            = Inr (1, Map.empty)"
    by (simp add: char_defs reader_defs scan_defs conv_defs load_item_def load_and_assign_def
        int_item_def)
  have fin: "LoadDatabase_loop env f date [it] (0 + 1) prefix s0 r st = Inr (r, st)"
    for env :: "unit env" and f date it prefix s0 r st
    by (subst LoadDatabase_loop.simps) simp
  have l1: "LoadDatabase libc_plain (open_text ''L.nw = 7'') sentinel [int_item ''nw'' 0 0 False]
           ''L.vdc.u1.'' 1 Map.empty = Inr (0, Map.empty(0 \<mapsto> Scalar (IntVal 7)))"
    unfolding LoadDatabase_def t1 [THEN conjunct1] e1 by (simp only: fin sum.case prod.case) simp
  have l3: "LoadDatabase libc_plain (open_text ''L.nw = 7'') sentinel [int_item ''nw'' 0 0 False]
           ''L.vdc.u1.'' 2 Map.empty = Inr (0, Map.empty(0 \<mapsto> Scalar (IntVal 7)))"
    unfolding LoadDatabase_def t3 e3 by (simp only: fin sum.case prod.case) simp
  have l2: "LoadDatabase libc_plain (open_text ''L.nw = 7'') sentinel [int_item ''nw'' 0 (- 1) False]
           ''L.vdc.u1.'' 0 Map.empty = Inr (1, Map.empty)"
    unfolding LoadDatabase_def t2 e2 using a2 by simp
  show ?thesis
    unfolding l1 l2 l3 c1 c2 c3 cp using n v len by simp
qed

text \<open>C6.  The specification has a required item that stays missing reported as
  \<open>1 + index\<close>, as the comment in \<^verbatim>\<open>LoadDatabase\<close> says.  When the search goes up the
  prefix chain, the miss is detected in the recursive call on the one-item array
  \<^verbatim>\<open>newreq\<close>, which returns \<open>1 + 0\<close>, and the caller passes that on: the second item
  (index 1) is reported as \<open>1\<close>.  Without a search it is reported as \<open>2\<close>.\<close>

theorem missing_item_index_lost:
  "map_sum id fst (LoadDatabase libc_plain (open_text ''L.a = 7'') sentinel
      [int_item ''a'' 0 0 False, int_item ''b'' 1 0 False] ''L.'' 1 Map.empty) = Inr 1
   \<and> map_sum id fst (LoadDatabase libc_plain (open_text ''L.a = 7'') sentinel
      [int_item ''a'' 0 0 False, int_item ''b'' 1 0 False] ''L.'' 0 Map.empty) = Inr 2"
  by (simp add: char_defs reader_defs scan_defs conv_defs load_defs)


subsection \<open>The path resolver\<close>

lemma add_prefix_length:
  assumes "nm \<noteq> []" and "nm \<noteq> ''db_''"
  shows "4 \<le> length (add_prefix nm)"
proof (cases "take 3 nm = ''db_''")
  case False
  with assms(1) show ?thesis by (cases nm) (simp_all add: add_prefix_def)
next
  case True
  then have "length (take 3 nm) = 3" by simp
  then have "3 \<le> length nm" by simp
  moreover have "length nm \<noteq> 3"
  proof
    assume "length nm = 3"
    then have "take 3 nm = nm" by simp
    with True assms(2) show False by simp
  qed
  ultimately show ?thesis using True by (simp add: add_prefix_def)
qed

lemma drop_db_prefix_long:
  assumes "length xs = 3" and "4 \<le> length nm"
  shows "drop (length (xs @ nm) - 4) (xs @ nm) = drop (length nm - 4) nm"
  using assms by simp

lemma drop_db_prefix_short:
  assumes "k < 3"
  shows "drop k (''db_'' @ nm) \<noteq> ''.dat''"
proof -
  from assms have "k = 0 \<or> k = 1 \<or> k = 2" by arith
  then show ?thesis
  proof (elim disjE)
    assume "k = 0" then show ?thesis by simp
  next
    assume "k = 1" then show ?thesis by simp
  next
    assume "k = 2" then show ?thesis by simp
  qed
qed

text \<open>C8.  A name that contains \<^verbatim>\<open>/\<close> gives the list of that name alone.  For a
  non-empty name without \<^verbatim>\<open>/\<close>, other than \<^verbatim>\<open>db_\<close>, and a database directory \<open>thedir\<close>
  that can be opened, the list begins with the file name itself (relative to the current
  directory, without a leading \<^verbatim>\<open>./\<close>) and ends with \<open>thedir/\<close> and the file name; the file
  name is \<^verbatim>\<open>db_<name>.dat\<close> for a name that does not begin with \<^verbatim>\<open>db_\<close> and does not end
  in \<^verbatim>\<open>.\<close> or \<^verbatim>\<open>.dat\<close>.\<close>

theorem GetDBFileList_candidates:
  "(CHR ''/'' \<in> set nm \<longrightarrow> GetDBFileList sys ndebug nm date = Inr [nm])
   \<and> (nm \<noteq> [] \<and> nm \<noteq> ''db_'' \<and> CHR ''/'' \<notin> set nm \<and> first_open sys (dnames sys) = Some (thedir, entries)
        \<longrightarrow> (\<exists>fs. GetDBFileList sys ndebug nm date = Inr fs
                  \<and> hd fs = add_suffix (add_prefix nm)
                  \<and> last fs = thedir @ ''/'' @ add_suffix (add_prefix nm)))
   \<and> (take 3 nm \<noteq> ''db_'' \<and> nm \<noteq> [] \<and> last nm \<noteq> CHR ''.'' \<and> drop (length nm - 4) nm \<noteq> ''.dat''
        \<longrightarrow> add_suffix (add_prefix nm) = ''db_'' @ nm @ ''.dat'')"
proof (intro conjI impI)
  assume "CHR ''/'' \<in> set nm"
  then show "GetDBFileList sys ndebug nm date = Inr [nm]"
    by (auto simp: GetDBFileList_def)
next
  assume h: "nm \<noteq> [] \<and> nm \<noteq> ''db_'' \<and> CHR ''/'' \<notin> set nm \<and> first_open sys (dnames sys) = Some (thedir, entries)"
  then have "4 \<le> length (add_prefix nm)" by (simp add: add_prefix_length)
  with h show "\<exists>fs. GetDBFileList sys ndebug nm date = Inr fs
                  \<and> hd fs = add_suffix (add_prefix nm)
                  \<and> last fs = thedir @ ''/'' @ add_suffix (add_prefix nm)"
    by (simp add: GetDBFileList_def Let_def)
next
  assume h: "take 3 nm \<noteq> ''db_'' \<and> nm \<noteq> [] \<and> last nm \<noteq> CHR ''.'' \<and> drop (length nm - 4) nm \<noteq> ''.dat''"
  then have p: "add_prefix nm = ''db_'' @ nm" by (simp add: add_prefix_def)
  have "drop (length (''db_'' @ nm) - 4) (''db_'' @ nm) \<noteq> ''.dat''"
  proof (cases "4 \<le> length nm")
    case True
    have "length ''db_'' = 3" by simp
    from drop_db_prefix_long [OF this True] h show ?thesis by simp
  next
    case False
    with h have k: "length nm - 1 < 3" by simp
    from h have "length (''db_'' @ nm) - 4 = length nm - 1" by (cases nm) simp_all
    with drop_db_prefix_short [OF k, of nm] show ?thesis by simp
  qed
  with h p show "add_suffix (add_prefix nm) = ''db_'' @ nm @ ''.dat''"
    by (simp add: add_suffix_def)
qed

theorem GetDBFileList_candidates_witness:
  "GetDBFileList only_cwd True ''run'' sentinel = Inr [''db_run.dat'', ''./db_run.dat'']
   \<and> GetDBFileList only_cwd True ''a/b'' sentinel = Inr [''a/b'']"
proof -
  have fo: "first_open only_cwd (dnames only_cwd) = Some (''.'', [''.'', ''..''])"
    by (simp add: only_cwd_def dnames_def)
  from GetDBFileList_candidates [of "''run''" only_cwd True sentinel "''.''" "[''.'', ''..'']"] fo
  obtain fs where fs: "GetDBFileList only_cwd True ''run'' sentinel = Inr fs"
    and "hd fs = add_suffix (add_prefix ''run'')" by auto
  have "GetDBFileList only_cwd True ''run'' sentinel = Inr [''db_run.dat'', ''./db_run.dat'']"
    by (simp add: path_defs only_cwd_def Let_def)
  moreover from GetDBFileList_candidates [of "''a/b''" only_cwd True sentinel]
  have "GetDBFileList only_cwd True ''a/b'' sentinel = Inr [''a/b'']" by simp
  ultimately show ?thesis by simp
qed

theorem GetDBFileList_first_candidate:
  "GetDBFileList dated_dirs True ''run'' (TDatime_Set 0 2005 6 15 0 0 0) =
     Inr [''db_run.dat'', ''DB/20000101/db_run.dat'', ''DB/DEFAULT/db_run.dat'', ''DB/db_run.dat'']"
  by (simp add: path_defs dated_dirs_def Let_def isdigit_def
      strtoll_def strto_scan_def isspace_def digits_val_def digit_val_def
      LLONG_MAX_def LLONG_MIN_def TDatime_Set_def)


end
